theory Spec2Isabelle
  imports Complex_Main "HOL-Library.Mapping" "HOL-Library.Multiset"
begin

section \<open>Graph construction and validation (constructors of \<open>Graph\<close>)\<close>

text \<open>
  A shallow embedding of the Rust functions \<open>validate\<close>, \<open>Graph::new_directed\<close> and
  \<open>Graph::new_undirected\<close>. A \<open>Vec\<close> or slice is a list, a \<open>HashMap\<close> is a
  \<open>mapping\<close>, \<open>Option\<close> is \<open>option\<close>, and \<open>Result<T, String>\<close> is a sum whose left
  summand is the error. The \<open>info!\<close> logging calls have no effect on the result and are
  left out.
\<close>

subsection \<open>Data model\<close>

text \<open>
  \<open>NodeT\<close> and \<open>EdgeT\<close> are \<open>usize\<close>: node ids are compared with \<open>Vec::len\<close> and edge ids
  come from \<open>enumerate\<close>. No arithmetic is done on them, so they are natural numbers.
  \<open>NodeTypeT\<close> and \<open>EdgeTypeT\<close> are unsigned tags that are only stored and copied.
\<close>

type_synonym NodeT = nat
type_synonym EdgeT = nat
type_synonym NodeTypeT = nat
type_synonym EdgeTypeT = nat

text \<open>
  \<open>WeightT\<close> is a 64-bit float. The code only compares a weight with \<open>0.0\<close> and asks
  \<open>is_nan\<close> and \<open>is_infinite\<close>, so a weight is its IEEE class: a finite value (a
  rational; \<open>Finite 0\<close> is \<open>+0.0\<close>), negative zero, an infinity, or NaN.
\<close>

datatype WeightT = Finite rat | NegZero | PosInf | NegInf | NaN

text \<open>\<open>*weight == 0.0\<close>: both zeros compare equal to \<open>0.0\<close>; NaN equals nothing.\<close>

fun weight_eq_zero :: "WeightT \<Rightarrow> bool" where
  "weight_eq_zero (Finite r) = (r = 0)"
| "weight_eq_zero NegZero = True"
| "weight_eq_zero PosInf = False"
| "weight_eq_zero NegInf = False"
| "weight_eq_zero NaN = False"

text \<open>\<open>*weight < 0.0\<close>: negative infinity is below zero; NaN is below nothing.\<close>

fun weight_lt_zero :: "WeightT \<Rightarrow> bool" where
  "weight_lt_zero (Finite r) = (r < 0)"
| "weight_lt_zero NegZero = False"
| "weight_lt_zero PosInf = False"
| "weight_lt_zero NegInf = True"
| "weight_lt_zero NaN = False"

fun is_nan :: "WeightT \<Rightarrow> bool" where
  "is_nan NaN = True"
| "is_nan _ = False"

fun is_infinite :: "WeightT \<Rightarrow> bool" where
  "is_infinite PosInf = True"
| "is_infinite NegInf = True"
| "is_infinite _ = False"

text \<open>
  The error strings of \<open>validate\<close>, one constructor for each message, carrying the values
  that \<open>format!\<close> puts into it, in the order of the arguments of \<open>format!\<close>.
\<close>

datatype error =
    NodeMappingLengthMismatch nat nat
  | NodeTypesLengthMismatch nat nat
  | DanglingNodeReference NodeT
  | WeightsLengthMismatch nat nat
  | ZeroWeight WeightT
  | NegativeWeight WeightT
  | NaNWeight
  | InfiniteWeight
  | EdgeTypesLengthMismatch nat nat

text \<open>
  A constructor call ends in one of three ways: it returns \<open>Err\<close> with the error of
  \<open>validate\<close>, it panics on an index out of bounds, or it returns \<open>Ok\<close> with a graph.
\<close>

datatype failure = Rejected error | Panic

record Graph =
  nodes_mapping :: "(string, NodeT) mapping"
  nodes_reverse_mapping :: "string list"
  unique_edges :: "(NodeT \<times> NodeT, EdgeT) mapping"
  node_types :: "NodeTypeT list option"
  node_types_mapping :: "(string, NodeTypeT) mapping option"
  node_types_reverse_mapping :: "string list option"
  edge_types_mapping :: "(string, EdgeTypeT) mapping option"
  edge_types_reverse_mapping :: "string list option"
  outbounds :: "EdgeT list"
  sources :: "NodeT list"
  destinations :: "NodeT list"
  weights :: "WeightT list option"
  edge_types :: "EdgeTypeT list option"

subsection \<open>The validator\<close>

text \<open>
  The loop \<open>for node in sources.iter().chain(destinations.iter())\<close>, run on the chained
  list, with \<open>n = nt.len()\<close>.
\<close>

fun check_nodes_exist :: "nat \<Rightarrow> NodeT list \<Rightarrow> error option" where
  "check_nodes_exist n [] = None"
| "check_nodes_exist n (node # rest) =
     (if node \<ge> n then Some (DanglingNodeReference node) else check_nodes_exist n rest)"

text \<open>The loop \<open>for weight in w.iter()\<close> with its four tests in the order of the code.\<close>

fun check_weights :: "WeightT list \<Rightarrow> error option" where
  "check_weights [] = None"
| "check_weights (weight # rest) =
     (if weight_eq_zero weight then Some (ZeroWeight weight)
      else if weight_lt_zero weight then Some (NegativeWeight weight)
      else if is_nan weight then Some NaNWeight
      else if is_infinite weight then Some InfiniteWeight
      else check_weights rest)"

text \<open>
  \<open>validate\<close>: every \<open>return Err(...)\<close> is an \<open>Inl\<close>, and falling out of an \<open>if let\<close>
  block continues with the next one. The parameters are those of the code, in its order:
  \<open>srcs\<close> = sources, \<open>dsts\<close> = destinations, \<open>nmap\<close> = nodes_mapping,
  \<open>nrev\<close> = nodes_reverse_mapping, \<open>ntypes\<close> = node_types, \<open>etypes\<close> = edge_types,
  \<open>wts\<close> = weights.
\<close>

definition validate ::
  "NodeT list \<Rightarrow> NodeT list \<Rightarrow> (string, NodeT) mapping \<Rightarrow> string list \<Rightarrow>
   NodeTypeT list option \<Rightarrow> EdgeTypeT list option \<Rightarrow> WeightT list option \<Rightarrow> error + unit"
where
  "validate srcs dsts nmap nrev ntypes etypes wts =
    (if Mapping.size nmap \<noteq> length nrev
     then Inl (NodeMappingLengthMismatch (Mapping.size nmap) (length nrev))
     else
      case (case ntypes of
              None \<Rightarrow> None
            | Some nt \<Rightarrow>
                if length nt \<noteq> length nrev
                then Some (NodeTypesLengthMismatch (length nt) (length nrev))
                else None) of
        Some e \<Rightarrow> Inl e
      | None \<Rightarrow>
      case (case ntypes of
              None \<Rightarrow> None
            | Some nt \<Rightarrow> check_nodes_exist (length nt) (srcs @ dsts)) of
        Some e \<Rightarrow> Inl e
      | None \<Rightarrow>
      case (case wts of
              None \<Rightarrow> None
            | Some w \<Rightarrow>
                if length w \<noteq> length srcs
                then Some (WeightsLengthMismatch (length w) (length srcs))
                else check_weights w) of
        Some e \<Rightarrow> Inl e
      | None \<Rightarrow>
      case (case etypes of
              None \<Rightarrow> None
            | Some et \<Rightarrow>
                if length et \<noteq> length srcs
                then Some (EdgeTypesLengthMismatch (length et) (length srcs))
                else None) of
        Some e \<Rightarrow> Inl e
      | None \<Rightarrow> Inr ())"

subsection \<open>The directed constructor\<close>

text \<open>\<open>HashMap::from_iter\<close>: the pairs are inserted in order, a later key overwriting.\<close>

definition from_iter :: "('k \<times> 'v) list \<Rightarrow> ('k, 'v) mapping" where
  "from_iter kvs = fold (\<lambda>(k, v) m. Mapping.update k v m) kvs Mapping.empty"

text \<open>
  \<open>par_sort_unstable_by_key\<close> is rayon's: it reorders the vector of (index, source)
  pairs in place so that the keys (the sources) ascend, and promises nothing on the order
  of pairs with equal keys. The constructors take the sort as their first argument, and
  \<open>sort_unstable_by_key_contract\<close> is all that is known of it.
\<close>

type_synonym sorter = "(nat \<times> NodeT) list \<Rightarrow> (nat \<times> NodeT) list"

definition sort_unstable_by_key_contract :: "sorter \<Rightarrow> bool" where
  "sort_unstable_by_key_contract srt =
     (\<forall>ps. mset (srt ps) = mset ps \<and> sorted (map snd (srt ps)))"

text \<open>
  \<open>indices.par_iter().map(|&&x| v[x]).collect()\<close>: indexing a \<open>Vec\<close> out of bounds
  panics, which is \<open>None\<close> here.
\<close>

fun gather :: "'a list \<Rightarrow> nat list \<Rightarrow> 'a list option" where
  "gather v [] = Some []"
| "gather v (x # xs) =
     (if x < length v
      then (case gather v xs of None \<Rightarrow> None | Some ys \<Rightarrow> Some (v ! x # ys))
      else None)"

text \<open>\<open>weights.map(|w| ...)\<close>: the same under \<open>Option::map\<close>; the outer \<open>None\<close> is the panic.\<close>

fun gather_opt :: "'a list option \<Rightarrow> nat list \<Rightarrow> 'a list option option" where
  "gather_opt None xs = Some None"
| "gather_opt (Some v) xs = (case gather v xs of None \<Rightarrow> None | Some ys \<Rightarrow> Some (Some ys))"

text \<open>
  Modelled from the spec: \<open>Graph::compute_outbounds\<close>, which \<open>new_directed\<close> calls and whose
  body is not in this file. The specification gives its result: the offset table over the
  sorted sources, of length \<open>nodeCount\<close>, where \<open>offset[i]\<close> is the number of sorted edges
  with \<open>source \<le> i\<close>.
\<close>

definition compute_outbounds :: "nat \<Rightarrow> NodeT list \<Rightarrow> EdgeT list" where
  "compute_outbounds nodes_number sorted_sources =
     map (\<lambda>i. length (filter (\<lambda>s. s \<le> i) sorted_sources)) [0..<nodes_number]"

text \<open>\<open>validate_input_data.unwrap_or_else(|| true)\<close>\<close>

fun unwrap_or_true :: "bool option \<Rightarrow> bool" where
  "unwrap_or_true None = True"
| "unwrap_or_true (Some b) = b"

text \<open>
  \<open>Graph::new_directed\<close>. After the parameter \<open>srt\<close> for the sort come the twelve
  parameters of the code, in its order: \<open>srcs dsts nmap nrev ntypes\<close> as in \<open>validate\<close>,
  \<open>ntmap\<close> = node_types_mapping, \<open>ntrev\<close> = node_types_reverse_mapping,
  \<open>etypes\<close> = edge_types, \<open>etmap\<close> = edge_types_mapping,
  \<open>etrev\<close> = edge_types_reverse_mapping, \<open>wts\<close> = weights, \<open>vflag\<close> = validate_input_data.
\<close>

definition new_directed ::
  "sorter \<Rightarrow> NodeT list \<Rightarrow> NodeT list \<Rightarrow> (string, NodeT) mapping \<Rightarrow> string list \<Rightarrow>
   NodeTypeT list option \<Rightarrow> (string, NodeTypeT) mapping option \<Rightarrow> string list option \<Rightarrow>
   EdgeTypeT list option \<Rightarrow> (string, EdgeTypeT) mapping option \<Rightarrow> string list option \<Rightarrow>
   WeightT list option \<Rightarrow> bool option \<Rightarrow> failure + Graph"
where
  "new_directed srt srcs dsts nmap nrev ntypes ntmap ntrev etypes etmap etrev wts vflag =
    (case (if unwrap_or_true vflag
           then validate srcs dsts nmap nrev ntypes etypes wts
           else Inr ()) of
       Inl e \<Rightarrow> Inl (Rejected e)
     | Inr _ \<Rightarrow>
       let nodes_number = length nrev;
           uniq = from_iter (map (\<lambda>(i, (src, dst)). ((src, dst), i))
                               (List.enumerate 0 (zip srcs dsts)));
           pairs = srt (List.enumerate 0 srcs);
           indices = map fst pairs
       in
       case gather srcs indices of
         None \<Rightarrow> Inl Panic
       | Some sorted_sources \<Rightarrow>
       case gather dsts indices of
         None \<Rightarrow> Inl Panic
       | Some sorted_destinations \<Rightarrow>
       case gather_opt wts indices of
         None \<Rightarrow> Inl Panic
       | Some sorted_weights \<Rightarrow>
       case gather_opt etypes indices of
         None \<Rightarrow> Inl Panic
       | Some sorted_edge_types \<Rightarrow>
         Inr \<lparr> nodes_mapping = nmap,
               nodes_reverse_mapping = nrev,
               unique_edges = uniq,
               node_types = ntypes,
               node_types_mapping = ntmap,
               node_types_reverse_mapping = ntrev,
               edge_types_mapping = etmap,
               edge_types_reverse_mapping = etrev,
               outbounds = compute_outbounds nodes_number sorted_sources,
               sources = sorted_sources,
               destinations = sorted_destinations,
               weights = sorted_weights,
               edge_types = sorted_edge_types \<rparr>)"

subsection \<open>The undirected constructor\<close>

text \<open>
  \<open>v.par_iter().zip(loops_mask.par_iter()).filter(|&(_, &mask)| !mask).map(|(value, _)| *value)\<close>:
  the entries of \<open>v\<close> whose mask is false; \<open>zip\<close> stops at the shorter of the two.
\<close>

definition not_loops :: "'a list \<Rightarrow> bool list \<Rightarrow> 'a list" where
  "not_loops v loops_mask = map fst (filter (\<lambda>(value, mask). \<not> mask) (zip v loops_mask))"

definition new_undirected ::
  "sorter \<Rightarrow> NodeT list \<Rightarrow> NodeT list \<Rightarrow> (string, NodeT) mapping \<Rightarrow> string list \<Rightarrow>
   NodeTypeT list option \<Rightarrow> (string, NodeTypeT) mapping option \<Rightarrow> string list option \<Rightarrow>
   EdgeTypeT list option \<Rightarrow> (string, EdgeTypeT) mapping option \<Rightarrow> string list option \<Rightarrow>
   WeightT list option \<Rightarrow> bool option \<Rightarrow> failure + Graph"
where
  "new_undirected srt srcs dsts nmap nrev ntypes ntmap ntrev etypes etmap etrev wts vflag =
    (case (if unwrap_or_true vflag
           then validate srcs dsts nmap nrev ntypes etypes wts
           else Inr ()) of
       Inl e \<Rightarrow> Inl (Rejected e)
     | Inr _ \<Rightarrow>
       let loops_mask = map (\<lambda>(a, b). a = b) (zip srcs dsts);
           full_sources = srcs @ not_loops dsts loops_mask;
           full_destinations = dsts @ not_loops srcs loops_mask;
           full_edge_types = map_option (\<lambda>e. e @ not_loops e loops_mask) etypes;
           full_weights = map_option (\<lambda>w. w @ not_loops w loops_mask) wts
       in new_directed srt full_sources full_destinations nmap nrev ntypes ntmap ntrev
            full_edge_types etmap etrev full_weights (Some False))"

subsection \<open>Notions of the specification\<close>

text \<open>
  The validator as the specification words it: five checks in a fixed order, the first
  failing one giving the error. A check is \<open>None\<close> when it passes or does not apply. The
  per-weight check takes the first of zero, negative, NaN, infinite that holds, and the
  weights pass takes the first weight, by position, that has a violation.
\<close>

definition weight_violation :: "WeightT \<Rightarrow> error option" where
  "weight_violation w =
     map_option snd
       (List.find fst
          [(weight_eq_zero w, ZeroWeight w),
           (weight_lt_zero w, NegativeWeight w),
           (is_nan w, NaNWeight),
           (is_infinite w, InfiniteWeight)])"

definition first_failure :: "error option list \<Rightarrow> error + unit" where
  "first_failure checks =
     (case List.find (\<lambda>c. c \<noteq> None) checks of
        Some (Some e) \<Rightarrow> Inl e
      | _ \<Rightarrow> Inr ())"

definition validate_in_order ::
  "NodeT list \<Rightarrow> NodeT list \<Rightarrow> (string, NodeT) mapping \<Rightarrow> string list \<Rightarrow>
   NodeTypeT list option \<Rightarrow> EdgeTypeT list option \<Rightarrow> WeightT list option \<Rightarrow> error + unit"
where
  "validate_in_order srcs dsts nmap nrev ntypes etypes wts =
     first_failure
       [if Mapping.size nmap = length nrev then None
        else Some (NodeMappingLengthMismatch (Mapping.size nmap) (length nrev)),
        case ntypes of
          None \<Rightarrow> None
        | Some nt \<Rightarrow>
            if length nt = length nrev then None
            else Some (NodeTypesLengthMismatch (length nt) (length nrev)),
        case ntypes of
          None \<Rightarrow> None
        | Some nt \<Rightarrow>
            map_option DanglingNodeReference
              (List.find (\<lambda>node. \<not> node < length nt) (srcs @ dsts)),
        case wts of
          None \<Rightarrow> None
        | Some w \<Rightarrow>
            if length w = length srcs
            then Option.bind (List.find (\<lambda>x. weight_violation x \<noteq> None) w) weight_violation
            else Some (WeightsLengthMismatch (length w) (length srcs)),
        case etypes of
          None \<Rightarrow> None
        | Some et \<Rightarrow>
            if length et = length srcs then None
            else Some (EdgeTypesLengthMismatch (length et) (length srcs))]"

text \<open>An optional per-edge array has an entry for each of \<open>n\<close> edge positions.\<close>

definition long_enough :: "nat \<Rightarrow> 'a list option \<Rightarrow> bool" where
  "long_enough n vo = (case vo of None \<Rightarrow> True | Some v \<Rightarrow> n \<le> length v)"

text \<open>
  \<open>offset[i - 1]\<close> with \<open>offset[-1] = 0\<close>: where the range of node \<open>i\<close> starts in the
  sorted arrays.
\<close>

definition offset_before :: "EdgeT list \<Rightarrow> nat \<Rightarrow> nat" where
  "offset_before offset i = (if i = 0 then 0 else offset ! (i - 1))"

text \<open>
  The edges of co-indexed arrays, one row for each position of the sources: source,
  destination, and the weight and the edge type when the arrays are present.
\<close>

definition edge_rows ::
  "NodeT list \<Rightarrow> NodeT list \<Rightarrow> WeightT list option \<Rightarrow> EdgeTypeT list option \<Rightarrow>
   (NodeT \<times> NodeT \<times> WeightT option \<times> EdgeTypeT option) list"
where
  "edge_rows s d w e =
     map (\<lambda>i. (s ! i, d ! i, map_option (\<lambda>v. v ! i) w, map_option (\<lambda>v. v ! i) e))
       [0..<length s]"

text \<open>The mirrored edge \<open>(d, s)\<close> of an edge \<open>(s, d)\<close>, with the same weight and type.\<close>

fun mirrored ::
  "NodeT \<times> NodeT \<times> WeightT option \<times> EdgeTypeT option \<Rightarrow>
   NodeT \<times> NodeT \<times> WeightT option \<times> EdgeTypeT option" where
  "mirrored (s, d, w, t) = (d, s, w, t)"

fun is_self_loop :: "NodeT \<times> NodeT \<times> WeightT option \<times> EdgeTypeT option \<Rightarrow> bool" where
  "is_self_loop (s, d, w, t) = (s = d)"

text \<open>
  The symmetrization of a list of edges: the edges, followed by the mirrored edge of each
  edge that is not a self-loop.
\<close>

definition symmetrized ::
  "(NodeT \<times> NodeT \<times> WeightT option \<times> EdgeTypeT option) list \<Rightarrow>
   (NodeT \<times> NodeT \<times> WeightT option \<times> EdgeTypeT option) list"
where
  "symmetrized rows = rows @ map mirrored (filter (\<lambda>r. \<not> is_self_loop r) rows)"

text \<open>An optional per-edge array, when present, is co-indexed with \<open>n\<close> edges.\<close>

definition same_length :: "nat \<Rightarrow> 'a list option \<Rightarrow> bool" where
  "same_length n vo = (case vo of None \<Rightarrow> True | Some v \<Rightarrow> length v = n)"

text \<open>Example dictionaries for the concrete instances below.\<close>

abbreviation abc_mapping :: "(string, NodeT) mapping" where
  "abc_mapping \<equiv>
     Mapping.update ''A'' 0 (Mapping.update ''B'' 1 (Mapping.update ''C'' 2 Mapping.empty))"

abbreviation xy_mapping :: "(string, nat) mapping" where
  "xy_mapping \<equiv> Mapping.update ''x'' 0 (Mapping.update ''y'' 1 Mapping.empty)"

abbreviation ab_mapping :: "(string, NodeT) mapping" where
  "ab_mapping \<equiv> Mapping.update ''A'' 0 (Mapping.update ''B'' 1 Mapping.empty)"

subsection \<open>Evaluation of concrete instances\<close>

lemmas eval_simps = new_directed_def new_undirected_def validate_def Mapping.size_def
  enumerate_eq_zip upt_rec compute_outbounds_def not_loops_def long_enough_def from_iter_def

lemma sort_key_contract: "sort_unstable_by_key_contract (sort_key snd)"
  by (simp add: sort_unstable_by_key_contract_def)

subsection \<open>Gathering along the sorted indices\<close>

lemma gather_in_range:
  "\<forall>x\<in>set xs. x < length v \<Longrightarrow> gather v xs = Some (map (nth v) xs)"
  by (induction xs) auto

lemma gather_eq_None: "gather v xs = None \<longleftrightarrow> (\<exists>x\<in>set xs. \<not> x < length v)"
  by (induction xs) (auto split: option.splits)

lemma sorted_pairs_in_enumerate:
  assumes "sort_unstable_by_key_contract srt"
  shows "set (srt (List.enumerate 0 xs)) = set (List.enumerate 0 xs)"
  using assms unfolding sort_unstable_by_key_contract_def by (metis set_mset_mset)

lemma indices_mset:
  assumes "sort_unstable_by_key_contract srt"
  shows "mset (map fst (srt (List.enumerate 0 xs))) = mset [0..<length xs]"
proof -
  have "mset (srt (List.enumerate 0 xs)) = mset (List.enumerate 0 xs)"
    using assms unfolding sort_unstable_by_key_contract_def by simp
  then have "mset (map fst (srt (List.enumerate 0 xs))) = mset (map fst (List.enumerate 0 xs))"
    by (metis mset_map)
  moreover have "map fst (List.enumerate 0 xs) = [0..<length xs]"
    by (simp add: map_fst_enumerate)
  ultimately show ?thesis by (simp only:)
qed

lemma indices_set:
  assumes "sort_unstable_by_key_contract srt"
  shows "set (map fst (srt (List.enumerate 0 xs))) = {0..<length xs}"
  using indices_mset[OF assms, of xs] by (metis set_mset_mset set_upt)

lemma indices_length:
  assumes "sort_unstable_by_key_contract srt"
  shows "length (map fst (srt (List.enumerate 0 xs))) = length xs"
  using indices_mset[OF assms, of xs] by (metis size_mset length_upt diff_zero)

lemma indices_distinct:
  assumes "sort_unstable_by_key_contract srt"
  shows "distinct (map fst (srt (List.enumerate 0 xs)))"
  using indices_mset[OF assms, of xs] by (metis distinct_upt mset_eq_imp_distinct_iff)

lemma indices_bij:
  assumes c: "sort_unstable_by_key_contract srt"
  shows "bij_betw (nth (map fst (srt (List.enumerate 0 xs)))) {..<length xs} {..<length xs}"
proof -
  have "bij_betw (nth (map fst (srt (List.enumerate 0 xs))))
          {..<length (map fst (srt (List.enumerate 0 xs)))}
          (set (map fst (srt (List.enumerate 0 xs))))"
    by (rule bij_betw_nth[OF indices_distinct[OF c]]) simp_all
  moreover have "{0..<length xs} = {..<length xs}" by auto
  ultimately show ?thesis
    unfolding indices_length[OF c] indices_set[OF c] by simp
qed

lemma gather_sources:
  assumes "sort_unstable_by_key_contract srt"
  shows "map (nth xs) (map fst (srt (List.enumerate 0 xs))) = map snd (srt (List.enumerate 0 xs))"
proof -
  have "\<forall>p\<in>set (srt (List.enumerate 0 xs)). xs ! fst p = snd p"
    unfolding sorted_pairs_in_enumerate[OF assms] by (auto simp: in_set_enumerate_eq)
  then show ?thesis by simp
qed

lemma gather_sources_sorted:
  assumes "sort_unstable_by_key_contract srt"
  shows "sorted (map (nth xs) (map fst (srt (List.enumerate 0 xs))))"
  unfolding gather_sources[OF assms] using assms
  unfolding sort_unstable_by_key_contract_def by simp

lemma sorted_sources_unique:
  assumes c: "sort_unstable_by_key_contract srt"
  shows "map (nth xs) (map fst (srt (List.enumerate 0 xs))) = sort xs"
proof -
  have "mset (map snd (srt (List.enumerate 0 xs))) = mset xs"
    using c unfolding sort_unstable_by_key_contract_def
    by (metis mset_map map_snd_enumerate)
  then have "mset (map (nth xs) (map fst (srt (List.enumerate 0 xs)))) = mset xs"
    unfolding gather_sources[OF c] .
  then show ?thesis
    using gather_sources_sorted[OF c, of xs] by (metis properties_for_sort)
qed

lemma mset_map_indices:
  assumes "mset idx = mset [0..<n]"
  shows "mset (map f idx) = mset (map f [0..<n])"
  using assms by (metis mset_map)

lemma all_indices_in_range:
  assumes "sort_unstable_by_key_contract srt"
  shows "(\<forall>x\<in>set (map fst (srt (List.enumerate 0 xs))). x < length v) \<longleftrightarrow> length xs \<le> length v"
proof -
  have "(\<forall>x\<in>{0..<length xs}. x < length v) \<longleftrightarrow> length xs \<le> length v"
  proof (cases "length xs")
    case 0
    then show ?thesis by simp
  next
    case (Suc k)
    then show ?thesis by (auto dest: bspec[where x = k])
  qed
  then show ?thesis unfolding indices_set[OF assms] .
qed

lemma gather_indices:
  assumes "sort_unstable_by_key_contract srt"
  shows "gather v (map fst (srt (List.enumerate 0 xs))) =
     (if length xs \<le> length v
      then Some (map (nth v) (map fst (srt (List.enumerate 0 xs)))) else None)"
proof (cases "length xs \<le> length v")
  case True
  then show ?thesis
    using gather_in_range[of "map fst (srt (List.enumerate 0 xs))" v]
      all_indices_in_range[OF assms, of xs v] by simp
next
  case False
  then show ?thesis
    using gather_eq_None[of v "map fst (srt (List.enumerate 0 xs))"]
      all_indices_in_range[OF assms, of xs v] by auto
qed

lemma gather_opt_indices:
  assumes "sort_unstable_by_key_contract srt"
  shows "gather_opt vo (map fst (srt (List.enumerate 0 xs))) =
     (if long_enough (length xs) vo
      then Some (map_option (\<lambda>v. map (nth v) (map fst (srt (List.enumerate 0 xs)))) vo)
      else None)"
  by (cases vo) (simp_all add: gather_indices[OF assms] long_enough_def)

subsection \<open>The outcomes of the constructors\<close>

lemma new_directed_Rejected:
  "new_directed srt srcs dsts nmap nrev ntypes ntmap ntrev etypes etmap etrev wts vflag
     = Inl (Rejected e) \<longleftrightarrow>
   unwrap_or_true vflag \<and> validate srcs dsts nmap nrev ntypes etypes wts = Inl e"
  unfolding new_directed_def Let_def
  by (auto split: sum.splits option.splits)

lemma new_directed_Inr:
  assumes c: "sort_unstable_by_key_contract srt"
  shows "new_directed srt srcs dsts nmap nrev ntypes ntmap ntrev etypes etmap etrev wts vflag
     = Inr g \<longleftrightarrow>
   (unwrap_or_true vflag \<longrightarrow> validate srcs dsts nmap nrev ntypes etypes wts = Inr ()) \<and>
   length srcs \<le> length dsts \<and> long_enough (length srcs) wts \<and>
   long_enough (length srcs) etypes \<and>
   g = \<lparr> nodes_mapping = nmap,
         nodes_reverse_mapping = nrev,
         unique_edges = from_iter (map (\<lambda>(i, (src, dst)). ((src, dst), i))
                               (List.enumerate 0 (zip srcs dsts))),
         node_types = ntypes,
         node_types_mapping = ntmap,
         node_types_reverse_mapping = ntrev,
         edge_types_mapping = etmap,
         edge_types_reverse_mapping = etrev,
         outbounds = compute_outbounds (length nrev)
            (map (nth srcs) (map fst (srt (List.enumerate 0 srcs)))),
         sources = map (nth srcs) (map fst (srt (List.enumerate 0 srcs))),
         destinations = map (nth dsts) (map fst (srt (List.enumerate 0 srcs))),
         weights = map_option (\<lambda>v. map (nth v) (map fst (srt (List.enumerate 0 srcs)))) wts,
         edge_types = map_option (\<lambda>v. map (nth v) (map fst (srt (List.enumerate 0 srcs)))) etypes \<rparr>"
  unfolding new_directed_def Let_def gather_indices[OF c] gather_opt_indices[OF c]
  by (auto split: sum.splits)

lemma new_directed_frame:
  assumes "new_directed srt srcs dsts nmap nrev ntypes ntmap ntrev etypes etmap etrev wts vflag = Inr g"
  shows "nodes_mapping g = nmap \<and> nodes_reverse_mapping g = nrev \<and> node_types g = ntypes \<and>
     node_types_mapping g = ntmap \<and> node_types_reverse_mapping g = ntrev \<and>
     edge_types_mapping g = etmap \<and> edge_types_reverse_mapping g = etrev"
  using assms unfolding new_directed_def Let_def
  by (auto split: sum.splits option.splits)

lemma unique_edges_enumerate:
  "map (\<lambda>(i, (src, dst)). ((src, dst), i)) (List.enumerate 0 (zip srcs dsts))
     = map (\<lambda>(i, k). (k, i)) (List.enumerate 0 (zip srcs dsts))"
  by (rule map_cong) auto

lemma new_directed_unique_edges:
  assumes "new_directed srt srcs dsts nmap nrev ntypes ntmap ntrev etypes etmap etrev wts vflag
              = Inr g"
  shows "unique_edges g = from_iter (map (\<lambda>(i, k). (k, i)) (List.enumerate 0 (zip srcs dsts)))"
  using assms unfolding new_directed_def Let_def unique_edges_enumerate
  by (auto split: sum.splits option.splits)

lemma new_undirected_Rejected:
  "new_undirected srt srcs dsts nmap nrev ntypes ntmap ntrev etypes etmap etrev wts vflag
     = Inl (Rejected e) \<longleftrightarrow>
   unwrap_or_true vflag \<and> validate srcs dsts nmap nrev ntypes etypes wts = Inl e"
  unfolding new_undirected_def Let_def
  by (auto simp: new_directed_Rejected split: sum.splits)

lemma new_undirected_as_directed:
  assumes "new_undirected srt srcs dsts nmap nrev ntypes ntmap ntrev etypes etmap etrev wts vflag
             = Inr h"
  shows "new_directed srt
           (srcs @ not_loops dsts (map (\<lambda>(a, b). a = b) (zip srcs dsts)))
           (dsts @ not_loops srcs (map (\<lambda>(a, b). a = b) (zip srcs dsts)))
           nmap nrev ntypes ntmap ntrev
           (map_option (\<lambda>e. e @ not_loops e (map (\<lambda>(a, b). a = b) (zip srcs dsts))) etypes)
           etmap etrev
           (map_option (\<lambda>w. w @ not_loops w (map (\<lambda>(a, b). a = b) (zip srcs dsts))) wts)
           (Some False) = Inr h"
  using assms unfolding new_undirected_def Let_def by (auto split: sum.splits)

lemma length_not_loops_le: "length (not_loops v lm) \<le> length (filter Not lm)"
  unfolding not_loops_def
proof (induction v arbitrary: lm)
  case Nil
  then show ?case by simp
next
  case (Cons a v)
  then show ?case by (cases lm) (auto simp: le_SucI)
qed

lemma length_not_loops_eq:
  "length lm \<le> length v \<Longrightarrow> length (not_loops v lm) = length (filter Not lm)"
  unfolding not_loops_def
proof (induction v arbitrary: lm)
  case Nil
  then show ?case by simp
next
  case (Cons a v)
  then show ?case by (cases lm) auto
qed

lemma long_enough_extended:
  assumes "length lm = n"
  shows "long_enough (n + length (filter Not lm)) (map_option (\<lambda>w. w @ not_loops w lm) vo)
     \<longleftrightarrow> long_enough n vo"
proof (cases vo)
  case None
  then show ?thesis by (simp add: long_enough_def)
next
  case (Some w)
  show ?thesis
  proof (cases "n \<le> length w")
    case True
    then show ?thesis
      using length_not_loops_eq[of lm w] assms Some by (simp add: long_enough_def)
  next
    case False
    then show ?thesis
      using length_not_loops_le[of w lm] Some by (simp add: long_enough_def)
  qed
qed

lemma new_undirected_Inr_iff:
  assumes c: "sort_unstable_by_key_contract srt"
  shows "(\<exists>h. new_undirected srt srcs dsts nmap nrev ntypes ntmap ntrev etypes etmap etrev wts vflag
     = Inr h) \<longleftrightarrow>
   (unwrap_or_true vflag \<longrightarrow> validate srcs dsts nmap nrev ntypes etypes wts = Inr ()) \<and>
   length srcs \<le> length dsts \<and> long_enough (length srcs) wts \<and>
   long_enough (length srcs) etypes"
proof -
  let ?lm = "map (\<lambda>(a, b). a = b) (zip srcs dsts)"
  let ?K = "length (filter Not ?lm)"
  have ls: "length (not_loops srcs ?lm) = ?K" by (rule length_not_loops_eq) simp
  have ld: "length (not_loops dsts ?lm) = ?K" by (rule length_not_loops_eq) simp
  have m: "length srcs \<le> length dsts \<Longrightarrow> length ?lm = length srcs" by simp
  show ?thesis
    unfolding new_undirected_def Let_def
    using long_enough_extended[OF m, of wts] long_enough_extended[OF m, of etypes]
    by (auto simp: new_directed_Inr[OF c] ls ld split: sum.splits)
qed

subsection \<open>The validator: order and reach of the checks\<close>

lemma check_nodes_exist_find:
  "check_nodes_exist n xs = map_option DanglingNodeReference (List.find (\<lambda>node. \<not> node < n) xs)"
  by (induction xs) auto

lemma check_nodes_exist_find_le:
  "check_nodes_exist n xs = map_option DanglingNodeReference (List.find (\<lambda>x. n \<le> x) xs)"
  by (induction xs) auto

lemma check_weights_find:
  "check_weights ws = Option.bind (List.find (\<lambda>x. weight_violation x \<noteq> None) ws) weight_violation"
  by (induction ws) (auto simp: weight_violation_def)

text \<open>
  Claim C4. \<open>validate\<close> runs its checks in the fixed order node-mapping length, node-types
  length, node-id existence against the number of node types, weights (length, then each
  weight by position, a weight being tested for zero, negative, NaN, infinite in that
  order), edge-types length, and returns the error of the first check that fails: it
  equals the validator worded as the first failure of that ordered list of checks.
\<close>

theorem validate_checks_in_fixed_order:
  "validate srcs dsts nmap nrev ntypes etypes wts
     = validate_in_order srcs dsts nmap nrev ntypes etypes wts"
  unfolding validate_def validate_in_order_def first_failure_def
    check_nodes_exist_find check_weights_find
  by (simp split: option.splits)

text \<open>
  Claim C7, as amended. With node types present and the two length checks before it
  passing, \<open>validate\<close> rejects with \<open>DanglingNodeReference\<close>, naming the first offending
  id of the sources followed by the destinations, every input with an id not below the
  number of node types. When one of the two length checks fails, \<open>validate\<close> returns that
  length mismatch instead: the one of the node mappings when their sizes differ, else the
  one of the node types. With node types absent the check is skipped: \<open>validate\<close> returns
  \<open>Ok\<close> when the other checks pass, whatever the ids are.
\<close>

theorem validate_dangling_node:
  "(Mapping.size nmap = length nrev \<and> length nt = length nrev \<and>
      (\<exists>x\<in>set (srcs @ dsts). length nt \<le> x)
      \<longrightarrow> (\<exists>node. List.find (\<lambda>x. length nt \<le> x) (srcs @ dsts) = Some node \<and>
             validate srcs dsts nmap nrev (Some nt) etypes wts
               = Inl (DanglingNodeReference node)))
   \<and>
   (Mapping.size nmap \<noteq> length nrev
      \<longrightarrow> validate srcs dsts nmap nrev (Some nt) etypes wts
            = Inl (NodeMappingLengthMismatch (Mapping.size nmap) (length nrev)))
   \<and>
   (Mapping.size nmap = length nrev \<and> length nt \<noteq> length nrev
      \<longrightarrow> validate srcs dsts nmap nrev (Some nt) etypes wts
            = Inl (NodeTypesLengthMismatch (length nt) (length nrev)))
   \<and>
   (Mapping.size nmap = length nrev \<and>
      (case wts of None \<Rightarrow> True | Some w \<Rightarrow> length w = length srcs \<and> check_weights w = None) \<and>
      (case etypes of None \<Rightarrow> True | Some et \<Rightarrow> length et = length srcs)
      \<longrightarrow> validate srcs dsts nmap nrev None etypes wts = Inr ())"
proof (intro conjI impI)
  assume a: "Mapping.size nmap = length nrev \<and> length nt = length nrev \<and>
      (\<exists>x\<in>set (srcs @ dsts). length nt \<le> x)"
  then obtain node where f: "List.find (\<lambda>x. length nt \<le> x) (srcs @ dsts) = Some node"
    by (cases "List.find (\<lambda>x. length nt \<le> x) (srcs @ dsts)") (auto simp: find_None_iff)
  have "validate srcs dsts nmap nrev (Some nt) etypes wts = Inl (DanglingNodeReference node)"
    using a f by (simp add: validate_def check_nodes_exist_find_le)
  with f show "\<exists>node. List.find (\<lambda>x. length nt \<le> x) (srcs @ dsts) = Some node \<and>
             validate srcs dsts nmap nrev (Some nt) etypes wts
               = Inl (DanglingNodeReference node)" by blast
next
  assume "Mapping.size nmap \<noteq> length nrev"
  then show "validate srcs dsts nmap nrev (Some nt) etypes wts
            = Inl (NodeMappingLengthMismatch (Mapping.size nmap) (length nrev))"
    by (simp add: validate_def)
next
  assume "Mapping.size nmap = length nrev \<and> length nt \<noteq> length nrev"
  then show "validate srcs dsts nmap nrev (Some nt) etypes wts
            = Inl (NodeTypesLengthMismatch (length nt) (length nrev))"
    by (simp add: validate_def)
next
  assume "Mapping.size nmap = length nrev \<and>
      (case wts of None \<Rightarrow> True | Some w \<Rightarrow> length w = length srcs \<and> check_weights w = None) \<and>
      (case etypes of None \<Rightarrow> True | Some et \<Rightarrow> length et = length srcs)"
  then show "validate srcs dsts nmap nrev None etypes wts = Inr ()"
    by (auto simp: validate_def split: option.splits)
qed

theorem validate_dangling_node_counterexample:
  "length [0::NodeTypeT, 0] \<le> (7::nat)
   \<and> validate [7] [0] (Mapping.update ''A'' 0 Mapping.empty) [''A''] (Some [0, 0]) None None
       = Inl (NodeTypesLengthMismatch 2 1)"
  by (simp add: validate_def Mapping.size_def)

theorem validate_dangling_node_witness:
  "Mapping.size ab_mapping = length [''A'', ''B'']
   \<and> length [0::NodeTypeT, 0] = length [''A'', ''B'']
   \<and> validate [0, 5] [1, 7] ab_mapping [''A'', ''B''] (Some [0, 0]) None None
        = Inl (DanglingNodeReference 5)
   \<and> validate [0, 5] [1, 7] ab_mapping [''A'', ''B''] None None None = Inr ()
   \<and> Mapping.size ab_mapping \<noteq> length [''A'']
   \<and> validate [0, 5] [1, 7] ab_mapping [''A''] (Some [0, 0]) None None
        = Inl (NodeMappingLengthMismatch 2 1)
   \<and> length [0::NodeTypeT] \<noteq> length [''A'', ''B'']
   \<and> validate [0, 5] [1, 7] ab_mapping [''A'', ''B''] (Some [0]) None None
        = Inl (NodeTypesLengthMismatch 1 2)"
proof -
  have h: "Mapping.size ab_mapping = length [''A'', ''B'']"
    by (simp add: Mapping.size_def)
  have h1: "Mapping.size ab_mapping \<noteq> length [''A'']"
    by (simp add: Mapping.size_def)
  have s: "Mapping.size ab_mapping = 2" by (simp add: Mapping.size_def)
  have a: "validate [0, 5] [1, 7] ab_mapping [''A'', ''B''] (Some [0, 0]) None None
        = Inl (DanglingNodeReference 5)
     \<and> validate [0, 5] [1, 7] ab_mapping [''A'', ''B''] None None None = Inr ()"
    using h validate_dangling_node[of ab_mapping "[''A'', ''B'']" "[0, 0]" "[0, 5]" "[1, 7]"
        None None]
    by simp
  have b: "validate [0, 5] [1, 7] ab_mapping [''A''] (Some [0, 0]) None None
        = Inl (NodeMappingLengthMismatch 2 1)"
    using h1 s validate_dangling_node[of ab_mapping "[''A'']" "[0, 0]" "[0, 5]" "[1, 7]"
        None None]
    by simp
  have c: "validate [0, 5] [1, 7] ab_mapping [''A'', ''B''] (Some [0]) None None
        = Inl (NodeTypesLengthMismatch 1 2)"
    using h validate_dangling_node[of ab_mapping "[''A'', ''B'']" "[0]" "[0, 5]" "[1, 7]"
        None None]
    by simp
  have l: "length [0::NodeTypeT, 0] = length [''A'', ''B'']"
     "length [0::NodeTypeT] \<noteq> length [''A'', ''B'']" by simp_all
  show ?thesis using h h1 a b c l by (intro conjI) blast+
qed

text \<open>
  Claim C10. \<open>validate\<close> never compares the lengths of the sources and the destinations:
  with node mappings of equal size and no node types, edge types or weights, it returns
  \<open>Ok\<close> whatever the two edge arrays are, also when their lengths differ.
\<close>

theorem validate_ignores_edge_lengths:
  "Mapping.size nmap = length nrev \<Longrightarrow> validate srcs dsts nmap nrev None None None = Inr ()"
  by (simp add: validate_def)

theorem validate_ignores_edge_lengths_witness:
  "Mapping.size (Mapping.update ''A'' (0::nat) (Mapping.update ''B'' 1 Mapping.empty))
      = length [''A'', ''B'']
   \<and> length [0::nat, 1] \<noteq> length [0::nat]
   \<and> validate [0, 1] [0] (Mapping.update ''A'' 0 (Mapping.update ''B'' 1 Mapping.empty))
        [''A'', ''B''] None None None = Inr ()"
proof -
  have h: "Mapping.size (Mapping.update ''A'' (0::nat) (Mapping.update ''B'' 1 Mapping.empty))
      = length [''A'', ''B'']"
    by (simp add: Mapping.size_def)
  show ?thesis
    using h validate_ignores_edge_lengths[OF h, of "[0, 1]" "[0]"] by simp
qed

subsection \<open>Errors and graphs returned by the constructors\<close>

text \<open>
  Claim C8, as amended. Each constructor returns an error exactly when validation is enabled
  and \<open>validate\<close> rejects the input, and the error is the one of \<open>validate\<close>. A graph
  is returned exactly when validation is disabled or \<open>validate\<close> accepts, and moreover
  the destinations and, when present, the weights and the edge types have at least as many
  entries as the sources; in the remaining case the call panics on an index out of bounds
  and returns neither.
\<close>

theorem constructors_outcome:
  assumes c: "sort_unstable_by_key_contract srt"
  shows
   "(new_directed srt srcs dsts nmap nrev ntypes ntmap ntrev etypes etmap etrev wts vflag
       = Inl (Rejected e) \<longleftrightarrow>
     unwrap_or_true vflag \<and> validate srcs dsts nmap nrev ntypes etypes wts = Inl e)
    \<and>
    (new_undirected srt srcs dsts nmap nrev ntypes ntmap ntrev etypes etmap etrev wts vflag
       = Inl (Rejected e) \<longleftrightarrow>
     unwrap_or_true vflag \<and> validate srcs dsts nmap nrev ntypes etypes wts = Inl e)
    \<and>
    ((\<exists>g. new_directed srt srcs dsts nmap nrev ntypes ntmap ntrev etypes etmap etrev wts vflag
         = Inr g) \<longleftrightarrow>
     (\<not> unwrap_or_true vflag \<or> validate srcs dsts nmap nrev ntypes etypes wts = Inr ()) \<and>
     length srcs \<le> length dsts \<and> long_enough (length srcs) wts \<and>
     long_enough (length srcs) etypes)
    \<and>
    ((\<exists>h. new_undirected srt srcs dsts nmap nrev ntypes ntmap ntrev etypes etmap etrev wts vflag
         = Inr h) \<longleftrightarrow>
     (\<not> unwrap_or_true vflag \<or> validate srcs dsts nmap nrev ntypes etypes wts = Inr ()) \<and>
     length srcs \<le> length dsts \<and> long_enough (length srcs) wts \<and>
     long_enough (length srcs) etypes)"
proof -
  have d: "(\<exists>g. new_directed srt srcs dsts nmap nrev ntypes ntmap ntrev etypes etmap etrev wts vflag
         = Inr g) \<longleftrightarrow>
     (\<not> unwrap_or_true vflag \<or> validate srcs dsts nmap nrev ntypes etypes wts = Inr ()) \<and>
     length srcs \<le> length dsts \<and> long_enough (length srcs) wts \<and>
     long_enough (length srcs) etypes"
    unfolding new_directed_Inr[OF c] by auto
  have u: "(\<exists>h. new_undirected srt srcs dsts nmap nrev ntypes ntmap ntrev etypes etmap etrev wts vflag
         = Inr h) \<longleftrightarrow>
     (\<not> unwrap_or_true vflag \<or> validate srcs dsts nmap nrev ntypes etypes wts = Inr ()) \<and>
     length srcs \<le> length dsts \<and> long_enough (length srcs) wts \<and>
     long_enough (length srcs) etypes"
    unfolding new_undirected_Inr_iff[OF c] by auto
  show ?thesis
    using new_directed_Rejected new_undirected_Rejected d u by (intro conjI)
qed

theorem constructors_outcome_counterexample:
  "new_directed (sort_key snd) [0] [0] (Mapping.update ''A'' 0 Mapping.empty) [''A'']
     None None None None None None (Some []) (Some False) = Inl Panic"
  by (simp add: eval_simps)

theorem constructors_outcome_witness:
  "sort_unstable_by_key_contract (sort_key snd)
   \<and> unwrap_or_true (Some True)
   \<and> validate [2, 0, 1] [0, 1, 2] abc_mapping [''A'', ''B'', ''C''] None None
       (Some [Finite 1, Finite 2, Finite 3]) = Inr ()
   \<and> \<not> isl (new_directed (sort_key snd) [2, 0, 1] [0, 1, 2] abc_mapping [''A'', ''B'', ''C'']
       None None None None None None (Some [Finite 1, Finite 2, Finite 3]) (Some True))
   \<and> \<not> isl (new_undirected (sort_key snd) [2, 0, 1] [0, 1, 2] abc_mapping [''A'', ''B'', ''C'']
       None None None None None None (Some [Finite 1, Finite 2, Finite 3]) (Some True))"
proof -
  have v: "validate [2, 0, 1] [0, 1, 2] abc_mapping [''A'', ''B'', ''C''] None None
       (Some [Finite 1, Finite 2, Finite 3]) = Inr ()"
    by (simp add: validate_def Mapping.size_def)
  have l: "long_enough (length [2::nat, 0, 1]) (Some [Finite 1, Finite 2, Finite 3])"
      "long_enough (length [2::nat, 0, 1]) (None :: EdgeTypeT list option)"
    by (simp_all add: long_enough_def)
  note t = constructors_outcome[OF sort_key_contract, of "[2, 0, 1]" "[0, 1, 2]" abc_mapping
        "[''A'', ''B'', ''C'']" None None None None None None
        "Some [Finite 1, Finite 2, Finite 3]" "Some True"]
  have ll: "length [2::nat, 0, 1] \<le> length [0::nat, 1, 2]" by simp
  have d: "\<exists>g. new_directed (sort_key snd) [2, 0, 1] [0, 1, 2] abc_mapping [''A'', ''B'', ''C'']
       None None None None None None (Some [Finite 1, Finite 2, Finite 3]) (Some True) = Inr g"
    using t v l ll by blast
  have u: "\<exists>h. new_undirected (sort_key snd) [2, 0, 1] [0, 1, 2] abc_mapping [''A'', ''B'', ''C'']
       None None None None None None (Some [Finite 1, Finite 2, Finite 3]) (Some True) = Inr h"
    using t v l ll by blast
  have di: "\<not> isl (new_directed (sort_key snd) [2, 0, 1] [0, 1, 2] abc_mapping
       [''A'', ''B'', ''C''] None None None None None None
       (Some [Finite 1, Finite 2, Finite 3]) (Some True))"
    using d by (auto simp del: One_nat_def)
  have ui: "\<not> isl (new_undirected (sort_key snd) [2, 0, 1] [0, 1, 2] abc_mapping
       [''A'', ''B'', ''C''] None None None None None None
       (Some [Finite 1, Finite 2, Finite 3]) (Some True))"
    using u by (auto simp del: One_nat_def)
  have w: "unwrap_or_true (Some True)" by simp
  show ?thesis
    using sort_key_contract w v di ui by (intro conjI)
qed

subsection \<open>Pass-through of the caller's dictionaries\<close>

text \<open>
  Claim C9. In the graph returned by a successful call of \<open>new_directed\<close> or of
  \<open>new_undirected\<close>, the node name-to-id mapping, the id-to-name sequence, the optional
  node-type array and the node-type and edge-type dictionaries are the caller's values,
  unchanged.
\<close>

theorem constructors_pass_through:
  "(new_directed srt srcs dsts nmap nrev ntypes ntmap ntrev etypes etmap etrev wts vflag = Inr g
     \<longrightarrow> nodes_mapping g = nmap \<and> nodes_reverse_mapping g = nrev \<and> node_types g = ntypes \<and>
       node_types_mapping g = ntmap \<and> node_types_reverse_mapping g = ntrev \<and>
       edge_types_mapping g = etmap \<and> edge_types_reverse_mapping g = etrev)
   \<and>
   (new_undirected srt srcs dsts nmap nrev ntypes ntmap ntrev etypes etmap etrev wts vflag = Inr h
     \<longrightarrow> nodes_mapping h = nmap \<and> nodes_reverse_mapping h = nrev \<and> node_types h = ntypes \<and>
       node_types_mapping h = ntmap \<and> node_types_reverse_mapping h = ntrev \<and>
       edge_types_mapping h = etmap \<and> edge_types_reverse_mapping h = etrev)"
proof (rule conjI; rule impI)
  assume a: "new_directed srt srcs dsts nmap nrev ntypes ntmap ntrev etypes etmap etrev wts vflag = Inr g"
  show "nodes_mapping g = nmap \<and> nodes_reverse_mapping g = nrev \<and> node_types g = ntypes \<and>
       node_types_mapping g = ntmap \<and> node_types_reverse_mapping g = ntrev \<and>
       edge_types_mapping g = etmap \<and> edge_types_reverse_mapping g = etrev"
    by (rule new_directed_frame[OF a])
next
  assume a: "new_undirected srt srcs dsts nmap nrev ntypes ntmap ntrev etypes etmap etrev wts vflag = Inr h"
  then obtain fs fd fe fw where
    "new_directed srt fs fd nmap nrev ntypes ntmap ntrev fe etmap etrev fw (Some False) = Inr h"
    unfolding new_undirected_def Let_def by (auto split: sum.splits)
  then show "nodes_mapping h = nmap \<and> nodes_reverse_mapping h = nrev \<and> node_types h = ntypes \<and>
       node_types_mapping h = ntmap \<and> node_types_reverse_mapping h = ntrev \<and>
       edge_types_mapping h = etmap \<and> edge_types_reverse_mapping h = etrev"
    by (rule new_directed_frame)
qed

theorem constructors_pass_through_witness:
  "(case new_directed (sort_key snd) [2, 0, 1] [0, 1, 2] abc_mapping [''A'', ''B'', ''C'']
       (Some [0, 0, 1]) (Some xy_mapping) (Some [''x'', ''y''])
       (Some [1, 0, 1]) (Some xy_mapping) (Some [''x'', ''y''])
       (Some [Finite 1, Finite 2, Finite 3]) (Some True) of
      Inl _ \<Rightarrow> False
    | Inr g \<Rightarrow> nodes_mapping g = abc_mapping \<and> nodes_reverse_mapping g = [''A'', ''B'', ''C''] \<and>
        node_types g = Some [0, 0, 1] \<and> node_types_mapping g = Some xy_mapping \<and>
        node_types_reverse_mapping g = Some [''x'', ''y''] \<and>
        edge_types_mapping g = Some xy_mapping \<and>
        edge_types_reverse_mapping g = Some [''x'', ''y''])
   \<and>
   (case new_undirected (sort_key snd) [2, 0, 1] [0, 1, 2] abc_mapping [''A'', ''B'', ''C'']
       (Some [0, 0, 1]) (Some xy_mapping) (Some [''x'', ''y''])
       (Some [1, 0, 1]) (Some xy_mapping) (Some [''x'', ''y''])
       (Some [Finite 1, Finite 2, Finite 3]) (Some True) of
      Inl _ \<Rightarrow> False
    | Inr h \<Rightarrow> nodes_mapping h = abc_mapping \<and> nodes_reverse_mapping h = [''A'', ''B'', ''C''] \<and>
        node_types h = Some [0, 0, 1] \<and> node_types_mapping h = Some xy_mapping \<and>
        node_types_reverse_mapping h = Some [''x'', ''y''] \<and>
        edge_types_mapping h = Some xy_mapping \<and>
        edge_types_reverse_mapping h = Some [''x'', ''y''])"
proof -
  obtain g where g: "new_directed (sort_key snd) [2, 0, 1] [0, 1, 2] abc_mapping
       [''A'', ''B'', ''C''] (Some [0, 0, 1]) (Some xy_mapping) (Some [''x'', ''y''])
       (Some [1, 0, 1]) (Some xy_mapping) (Some [''x'', ''y''])
       (Some [Finite 1, Finite 2, Finite 3]) (Some True) = Inr g"
    by (simp add: eval_simps)
  obtain h where h: "new_undirected (sort_key snd) [2, 0, 1] [0, 1, 2] abc_mapping
       [''A'', ''B'', ''C''] (Some [0, 0, 1]) (Some xy_mapping) (Some [''x'', ''y''])
       (Some [1, 0, 1]) (Some xy_mapping) (Some [''x'', ''y''])
       (Some [Finite 1, Finite 2, Finite 3]) (Some True) = Inr h"
    by (simp add: eval_simps)
  show ?thesis
    unfolding g h
    using g h constructors_pass_through[of "sort_key snd" "[2, 0, 1]" "[0, 1, 2]" abc_mapping
       "[''A'', ''B'', ''C'']" "Some [0, 0, 1]" "Some xy_mapping" "Some [''x'', ''y'']"
       "Some [1, 0, 1]" "Some xy_mapping" "Some [''x'', ''y'']"
       "Some [Finite 1, Finite 2, Finite 3]" "Some True" g h]
    by simp
qed

subsection \<open>The offset table\<close>

lemma sorted_count_le:
  "sorted ss \<Longrightarrow> pos < length ss \<Longrightarrow>
     pos < length (filter (\<lambda>s. s \<le> i) ss) \<longleftrightarrow> ss ! pos \<le> (i::nat)"
proof (induction ss arbitrary: pos)
  case Nil
  then show ?case by simp
next
  case (Cons x xs)
  show ?case
  proof (cases "x \<le> i")
    case True
    then show ?thesis using Cons by (cases pos) auto
  next
    case False
    then have "\<forall>y\<in>set (x # xs). \<not> y \<le> i" using Cons.prems(1) by auto
    moreover have "(x # xs) ! pos \<in> set (x # xs)"
      using Cons.prems(2) by (rule nth_mem)
    ultimately have "filter (\<lambda>s. s \<le> i) (x # xs) = []" "\<not> (x # xs) ! pos \<le> i"
      by (simp add: filter_empty_conv, blast)
    then show ?thesis by simp
  qed
qed

lemma compute_outbounds_length: "length (compute_outbounds n ss) = n"
  by (simp add: compute_outbounds_def)

lemma compute_outbounds_nth:
  "i < n \<Longrightarrow> compute_outbounds n ss ! i = length (filter (\<lambda>s. s \<le> i) ss)"
  by (simp add: compute_outbounds_def)

lemma compute_outbounds_last:
  assumes "\<forall>s\<in>set ss. s < n"
  shows "offset_before (compute_outbounds n ss) n = length ss"
proof (cases n)
  case 0
  then show ?thesis using assms by (simp add: offset_before_def)
next
  case (Suc k)
  have "filter (\<lambda>s. s \<le> k) ss = ss" using assms Suc by (auto simp: filter_id_conv)
  then show ?thesis using Suc by (simp add: offset_before_def compute_outbounds_nth)
qed

lemma compute_outbounds_range:
  assumes "sorted ss" "i < n"
    and "offset_before (compute_outbounds n ss) i \<le> pos" "pos < compute_outbounds n ss ! i"
  shows "pos < length ss \<and> ss ! pos = i"
proof -
  have u: "pos < length (filter (\<lambda>s. s \<le> i) ss)"
    using assms(2,4) by (simp add: compute_outbounds_nth)
  then have p: "pos < length ss"
    using length_filter_le[of "\<lambda>s. s \<le> i" ss] by linarith
  have le: "ss ! pos \<le> i" using sorted_count_le[OF assms(1) p] u by simp
  have ge: "i \<le> ss ! pos"
  proof (cases i)
    case 0
    then show ?thesis by simp
  next
    case (Suc k)
    then have "\<not> pos < length (filter (\<lambda>s. s \<le> k) ss)"
      using assms(2,3) by (simp add: offset_before_def compute_outbounds_nth)
    then have "\<not> ss ! pos \<le> k" using sorted_count_le[OF assms(1) p] by simp
    then show ?thesis using Suc by simp
  qed
  show ?thesis using p le ge by simp
qed

text \<open>
  Claim C1. For every input on which \<open>new_directed\<close> returns a graph and whose source ids
  are all below \<open>nodeCount = len(nodeIdToName)\<close>: the offset table has length
  \<open>nodeCount\<close>, \<open>offset[i]\<close> is the number of sorted edges with source \<open>\<le> i\<close>,
  \<open>offset[nodeCount - 1]\<close> is the edge count, and every position in
  \<open>[offset[i - 1], offset[i])\<close>, with \<open>offset[-1] = 0\<close>, holds an edge of source \<open>i\<close>.
\<close>

theorem offset_table_of_result:
  assumes c: "sort_unstable_by_key_contract srt"
    and r: "new_directed srt srcs dsts nmap nrev ntypes ntmap ntrev etypes etmap etrev wts vflag
              = Inr g"
    and b: "\<forall>s\<in>set srcs. s < length nrev"
  shows "length (outbounds g) = length nrev
    \<and> (\<forall>i<length nrev. outbounds g ! i = length (filter (\<lambda>s. s \<le> i) (sources g)))
    \<and> offset_before (outbounds g) (length nrev) = length (sources g)
    \<and> length (sources g) = length srcs
    \<and> (\<forall>i<length nrev. \<forall>pos. offset_before (outbounds g) i \<le> pos \<and> pos < outbounds g ! i
          \<longrightarrow> pos < length (sources g) \<and> sources g ! pos = i)"
proof -
  let ?idx = "map fst (srt (List.enumerate 0 srcs))"
  let ?ss = "map (nth srcs) ?idx"
  have s: "sources g = ?ss" and o: "outbounds g = compute_outbounds (length nrev) ?ss"
    using r unfolding new_directed_Inr[OF c] by simp_all
  have srt: "sorted ?ss" by (rule gather_sources_sorted[OF c])
  have "set ?ss = set srcs"
    unfolding gather_sources[OF c] using c
    unfolding sort_unstable_by_key_contract_def
    by (metis mset_map set_mset_mset map_snd_enumerate)
  then have bb: "\<forall>s\<in>set ?ss. s < length nrev" using b by blast
  have len: "length ?ss = length srcs" using indices_length[OF c, of srcs] by simp
  show ?thesis
    unfolding s o
    using compute_outbounds_length compute_outbounds_nth compute_outbounds_last[OF bb]
      compute_outbounds_range[OF srt] len
    by (intro conjI allI impI) blast+
qed

theorem offset_table_of_result_witness:
  "sort_unstable_by_key_contract (sort_key snd)
   \<and> (case new_directed (sort_key snd) [2, 0, 0] [0, 1, 2] abc_mapping [''A'', ''B'', ''C'']
          None None None None None None None (Some True) of
        Inl _ \<Rightarrow> False
      | Inr g \<Rightarrow> sources g = [0, 0, 2] \<and> outbounds g = [2, 2, 3] \<and>
          length (outbounds g) = length [''A'', ''B'', ''C''] \<and>
          offset_before (outbounds g) (length [''A'', ''B'', ''C'']) = length (sources g))"
proof -
  obtain g where g: "new_directed (sort_key snd) [2, 0, 0] [0, 1, 2] abc_mapping
      [''A'', ''B'', ''C''] None None None None None None None (Some True) = Inr g"
    by (simp add: eval_simps)
  have b: "\<forall>s\<in>set [2::nat, 0, 0]. s < length [''A'', ''B'', ''C'']" by simp
  note t = offset_table_of_result[OF sort_key_contract g b]
  have ev: "sources g = [0, 0, 2] \<and> outbounds g = [2, 2, 3]"
    using g by (auto simp: eval_simps)
  show ?thesis
    unfolding g using t ev sort_key_contract by simp
qed

subsection \<open>The sorting permutation\<close>

text \<open>
  Claim C2. For every input on which \<open>new_directed\<close> returns a graph there is one
  permutation \<open>pi\<close> of the edge positions with \<open>sortedSources[i] = sources[pi(i)]\<close>,
  \<open>sortedDestinations[i] = destinations[pi(i)]\<close> and, when present, the same for the
  weights and the edge types; the sorted sources ascend, so sorting them again changes
  nothing. For sources \<open>[2,0,1]\<close>, destinations \<open>[0,1,2]\<close> and weights
  \<open>[1.0,2.0,3.0]\<close> the construction succeeds with sorted sources \<open>[0,1,2]\<close> and offset
  table \<open>[1,2,3]\<close>.
\<close>

theorem sorted_by_one_permutation:
  assumes c: "sort_unstable_by_key_contract srt"
  shows
   "(\<forall>g. new_directed srt srcs dsts nmap nrev ntypes ntmap ntrev etypes etmap etrev wts vflag
            = Inr g \<longrightarrow>
       (\<exists>pi. bij_betw pi {..<length srcs} {..<length srcs} \<and>
          length (sources g) = length srcs \<and> length (destinations g) = length srcs \<and>
          (\<forall>i<length srcs. pi i < length dsts \<and>
             sources g ! i = srcs ! pi i \<and> destinations g ! i = dsts ! pi i) \<and>
          (case wts of
             None \<Rightarrow> weights g = None
           | Some w \<Rightarrow> \<exists>sw. weights g = Some sw \<and> length sw = length srcs \<and>
               (\<forall>i<length srcs. pi i < length w \<and> sw ! i = w ! pi i)) \<and>
          (case etypes of
             None \<Rightarrow> edge_types g = None
           | Some et \<Rightarrow> \<exists>se. edge_types g = Some se \<and> length se = length srcs \<and>
               (\<forall>i<length srcs. pi i < length et \<and> se ! i = et ! pi i))) \<and>
       sorted (sources g) \<and> sort (sources g) = sources g)
    \<and>
    (\<exists>g. new_directed srt [2, 0, 1] [0, 1, 2] abc_mapping [''A'', ''B'', ''C'']
            None None None None None None (Some [Finite 1, Finite 2, Finite 3]) (Some True)
            = Inr g \<and>
          sources g = [0, 1, 2] \<and> outbounds g = [1, 2, 3])"
proof (rule conjI; (intro allI impI)?)
  fix g
  assume r: "new_directed srt srcs dsts nmap nrev ntypes ntmap ntrev etypes etmap etrev wts vflag
            = Inr g"
  let ?idx = "map fst (srt (List.enumerate 0 srcs))"
  let ?n = "length srcs"
  have f: "sources g = map (nth srcs) ?idx" "destinations g = map (nth dsts) ?idx"
      "weights g = map_option (\<lambda>v. map (nth v) ?idx) wts"
      "edge_types g = map_option (\<lambda>v. map (nth v) ?idx) etypes"
    and l: "?n \<le> length dsts" "long_enough ?n wts" "long_enough ?n etypes"
    using r unfolding new_directed_Inr[OF c] by simp_all
  have len: "length ?idx = ?n" by (rule indices_length[OF c])
  have rng: "\<And>i. i < ?n \<Longrightarrow> ?idx ! i < ?n"
    using indices_set[OF c, of srcs] len by (metis atLeastLessThan_iff nth_mem)
  have nth: "\<And>i v. i < ?n \<Longrightarrow> map (nth v) ?idx ! i = v ! (?idx ! i)"
    using len by simp
  have p: "bij_betw (nth ?idx) {..<?n} {..<?n}" by (rule indices_bij[OF c])
  have sd: "\<forall>i<?n. ?idx ! i < length dsts \<and>
             sources g ! i = srcs ! (?idx ! i) \<and> destinations g ! i = dsts ! (?idx ! i)"
    using rng l(1) nth unfolding f by (auto intro: less_le_trans)
  have w: "case wts of
             None \<Rightarrow> weights g = None
           | Some w \<Rightarrow> \<exists>sw. weights g = Some sw \<and> length sw = ?n \<and>
               (\<forall>i<?n. ?idx ! i < length w \<and> sw ! i = w ! (?idx ! i))"
    using rng l(2) nth len unfolding f long_enough_def
    by (auto split: option.splits intro: less_le_trans)
  have e: "case etypes of
             None \<Rightarrow> edge_types g = None
           | Some et \<Rightarrow> \<exists>se. edge_types g = Some se \<and> length se = ?n \<and>
               (\<forall>i<?n. ?idx ! i < length et \<and> se ! i = et ! (?idx ! i))"
    using rng l(3) nth len unfolding f long_enough_def
    by (auto split: option.splits intro: less_le_trans)
  have ls: "length (sources g) = ?n" "length (destinations g) = ?n"
    unfolding f using len by simp_all
  have so: "sorted (sources g)" unfolding f by (rule gather_sources_sorted[OF c])
  then have ss: "sort (sources g) = sources g" by (simp add: sorted_sort_id)
  have "\<exists>pi. bij_betw pi {..<?n} {..<?n} \<and>
          length (sources g) = ?n \<and> length (destinations g) = ?n \<and>
          (\<forall>i<?n. pi i < length dsts \<and>
             sources g ! i = srcs ! pi i \<and> destinations g ! i = dsts ! pi i) \<and>
          (case wts of
             None \<Rightarrow> weights g = None
           | Some w \<Rightarrow> \<exists>sw. weights g = Some sw \<and> length sw = ?n \<and>
               (\<forall>i<?n. pi i < length w \<and> sw ! i = w ! pi i)) \<and>
          (case etypes of
             None \<Rightarrow> edge_types g = None
           | Some et \<Rightarrow> \<exists>se. edge_types g = Some se \<and> length se = ?n \<and>
               (\<forall>i<?n. pi i < length et \<and> se ! i = et ! pi i))"
    using p ls sd w e by (intro exI[of _ "nth ?idx"] conjI)
  then show "(\<exists>pi. bij_betw pi {..<?n} {..<?n} \<and>
          length (sources g) = ?n \<and> length (destinations g) = ?n \<and>
          (\<forall>i<?n. pi i < length dsts \<and>
             sources g ! i = srcs ! pi i \<and> destinations g ! i = dsts ! pi i) \<and>
          (case wts of
             None \<Rightarrow> weights g = None
           | Some w \<Rightarrow> \<exists>sw. weights g = Some sw \<and> length sw = ?n \<and>
               (\<forall>i<?n. pi i < length w \<and> sw ! i = w ! pi i)) \<and>
          (case etypes of
             None \<Rightarrow> edge_types g = None
           | Some et \<Rightarrow> \<exists>se. edge_types g = Some se \<and> length se = ?n \<and>
               (\<forall>i<?n. pi i < length et \<and> se ! i = et ! pi i))) \<and>
       sorted (sources g) \<and> sort (sources g) = sources g"
    using so ss by blast
next
  have v: "validate [2, 0, 1] [0, 1, 2] abc_mapping [''A'', ''B'', ''C''] None None
       (Some [Finite 1, Finite 2, Finite 3]) = Inr ()"
    by (simp add: validate_def Mapping.size_def)
  have s: "sort [2::nat, 0, 1] = [0, 1, 2]" by simp
  have o: "compute_outbounds (length [''A'', ''B'', ''C'']) [0, 1, 2] = [1, 2, 3]"
    by (simp add: compute_outbounds_def upt_rec)
  show "\<exists>g. new_directed srt [2, 0, 1] [0, 1, 2] abc_mapping [''A'', ''B'', ''C'']
            None None None None None None (Some [Finite 1, Finite 2, Finite 3]) (Some True)
            = Inr g \<and>
          sources g = [0, 1, 2] \<and> outbounds g = [1, 2, 3]"
    unfolding new_directed_Inr[OF c] sorted_sources_unique[OF c] s o
    using v by (simp add: long_enough_def)
qed

theorem sorted_by_one_permutation_witness:
  "sort_unstable_by_key_contract (sort_key snd)
   \<and> (case new_directed (sort_key snd) [2, 0, 1] [0, 1, 2] abc_mapping [''A'', ''B'', ''C'']
          None None None (Some [1, 0, 1]) (Some xy_mapping) (Some [''x'', ''y''])
          (Some [Finite 1, Finite 2, Finite 3]) (Some True) of
        Inl _ \<Rightarrow> False
      | Inr g \<Rightarrow> sorted (sources g) \<and> sort (sources g) = sources g \<and>
          sources g = [0, 1, 2] \<and> destinations g = [1, 2, 0] \<and>
          weights g = Some [Finite 2, Finite 3, Finite 1] \<and>
          edge_types g = Some [0, 1, 1])"
proof -
  obtain g where g: "new_directed (sort_key snd) [2, 0, 1] [0, 1, 2] abc_mapping
      [''A'', ''B'', ''C''] None None None (Some [1, 0, 1]) (Some xy_mapping)
      (Some [''x'', ''y'']) (Some [Finite 1, Finite 2, Finite 3]) (Some True) = Inr g"
    by (simp add: eval_simps)
  have t: "sorted (sources g) \<and> sort (sources g) = sources g"
    using sorted_by_one_permutation[OF sort_key_contract, of "[2, 0, 1]" "[0, 1, 2]"
        abc_mapping "[''A'', ''B'', ''C'']" None None None "Some [1, 0, 1]" "Some xy_mapping"
        "Some [''x'', ''y'']" "Some [Finite 1, Finite 2, Finite 3]" "Some True"] g
    by blast
  have ev: "sources g = [0, 1, 2] \<and> destinations g = [1, 2, 0] \<and>
          weights g = Some [Finite 2, Finite 3, Finite 1] \<and> edge_types g = Some [0, 1, 1]"
    using g by (auto simp: eval_simps)
  show ?thesis
    unfolding g using t ev sort_key_contract by simp
qed

subsection \<open>The dedup index\<close>

lemma from_iter_snoc:
  "from_iter (kvs @ [(k, v)]) = Mapping.update k v (from_iter kvs)"
  by (simp add: from_iter_def)

lemma lookup_from_iter_enumerate:
  "Mapping.lookup (from_iter (map (\<lambda>(i, k). (k, i)) (List.enumerate 0 ks))) k = Some p
     \<longleftrightarrow> p < length ks \<and> ks ! p = k \<and> (\<forall>j. p < j \<and> j < length ks \<longrightarrow> ks ! j \<noteq> k)"
proof (induction ks arbitrary: p rule: rev_induct)
  case Nil
  then show ?case by (simp add: from_iter_def)
next
  case (snoc x xs)
  have e: "map (\<lambda>(i, k). (k, i)) (List.enumerate 0 (xs @ [x]))
      = map (\<lambda>(i, k). (k, i)) (List.enumerate 0 xs) @ [(x, length xs)]"
    by (simp add: enumerate_append_eq)
  show ?case
  proof (cases "x = k")
    case True
    have "p < length (xs @ [x]) \<and> (xs @ [x]) ! p = k
        \<and> (\<forall>j. p < j \<and> j < length (xs @ [x]) \<longrightarrow> (xs @ [x]) ! j \<noteq> k) \<longleftrightarrow> p = length xs"
    proof
      assume a: "p < length (xs @ [x]) \<and> (xs @ [x]) ! p = k
        \<and> (\<forall>j. p < j \<and> j < length (xs @ [x]) \<longrightarrow> (xs @ [x]) ! j \<noteq> k)"
      show "p = length xs"
      proof (rule ccontr)
        assume "p \<noteq> length xs"
        then have pl: "p < length xs" using a by simp
        from a have "\<forall>j. p < j \<and> j < length (xs @ [x]) \<longrightarrow> (xs @ [x]) ! j \<noteq> k"
          by blast
        then have "p < length xs \<and> length xs < length (xs @ [x])
            \<longrightarrow> (xs @ [x]) ! length xs \<noteq> k"
          by (rule spec)
        then have "(xs @ [x]) ! length xs \<noteq> k" using pl by simp
        then show False using True by simp
      qed
    next
      assume "p = length xs"
      then show "p < length (xs @ [x]) \<and> (xs @ [x]) ! p = k
        \<and> (\<forall>j. p < j \<and> j < length (xs @ [x]) \<longrightarrow> (xs @ [x]) ! j \<noteq> k)"
        using True by auto
    qed
    then show ?thesis
      unfolding e from_iter_snoc using True by (auto simp: Mapping.lookup_update)
  next
    case False
    have "p < length (xs @ [x]) \<and> (xs @ [x]) ! p = k
        \<and> (\<forall>j. p < j \<and> j < length (xs @ [x]) \<longrightarrow> (xs @ [x]) ! j \<noteq> k)
      \<longleftrightarrow> p < length xs \<and> xs ! p = k \<and> (\<forall>j. p < j \<and> j < length xs \<longrightarrow> xs ! j \<noteq> k)"
      using False by (auto simp: nth_append less_Suc_eq)
    then show ?thesis
      unfolding e from_iter_snoc using False snoc.IH[of p]
      by (simp add: Mapping.lookup_update_neq)
  qed
qed

lemma edge_rows_of_maps:
  "edge_rows (map f1 Q) (map f2 Q) (map_option (\<lambda>v. map (g1 v) Q) w)
       (map_option (\<lambda>v. map (g2 v) Q) e)
     = map (\<lambda>q. (f1 q, f2 q, map_option (\<lambda>v. g1 v q) w, map_option (\<lambda>v. g2 v q) e)) Q"
  unfolding edge_rows_def
  by (rule nth_equalityI) (simp_all add: option.map_comp comp_def cong: option.map_cong)

lemma edge_rows_of_result:
  assumes c: "sort_unstable_by_key_contract srt"
    and r: "new_directed srt srcs dsts nmap nrev ntypes ntmap ntrev etypes etmap etrev wts vflag
              = Inr g"
  shows "mset (edge_rows (sources g) (destinations g) (weights g) (edge_types g))
           = mset (edge_rows srcs dsts wts etypes)"
proof -
  let ?idx = "map fst (srt (List.enumerate 0 srcs))"
  have f: "sources g = map (nth srcs) ?idx" "destinations g = map (nth dsts) ?idx"
      "weights g = map_option (\<lambda>v. map (nth v) ?idx) wts"
      "edge_types g = map_option (\<lambda>v. map (nth v) ?idx) etypes"
    using r unfolding new_directed_Inr[OF c] by simp_all
  show ?thesis
    unfolding f edge_rows_of_maps
    unfolding edge_rows_def
    by (rule mset_map_indices[OF indices_mset[OF c]])
qed

text \<open>
  Claim C5. In the dedup index built by \<open>new_directed\<close> a pair maps to the index of its
  last occurrence in input order, and duplicate edges are kept: the sorted arrays hold
  every input row. For the input edges \<open>(0,1)\<close> of weight \<open>1.0\<close> and \<open>(0,1)\<close> of weight
  \<open>2.0\<close> the index maps \<open>(0,1)\<close> to \<open>1\<close> and both rows are in the sorted arrays.
\<close>

theorem dedup_index_last_occurrence:
  assumes c: "sort_unstable_by_key_contract srt"
  shows
   "(\<forall>g. new_directed srt srcs dsts nmap nrev ntypes ntmap ntrev etypes etmap etrev wts vflag
            = Inr g \<longrightarrow>
       (\<forall>a b p. Mapping.lookup (unique_edges g) (a, b) = Some p \<longleftrightarrow>
          p < length srcs \<and> p < length dsts \<and> srcs ! p = a \<and> dsts ! p = b \<and>
          (\<forall>j. p < j \<and> j < length srcs \<and> j < length dsts
             \<longrightarrow> \<not> (srcs ! j = a \<and> dsts ! j = b))) \<and>
       length (sources g) = length srcs \<and>
       mset (edge_rows (sources g) (destinations g) (weights g) (edge_types g))
         = mset (edge_rows srcs dsts wts etypes))
    \<and>
    (\<exists>g. new_directed srt [0, 0] [1, 1] ab_mapping [''A'', ''B'']
            None None None None None None (Some [Finite 1, Finite 2]) (Some True) = Inr g \<and>
         Mapping.lookup (unique_edges g) (0, 1) = Some 1 \<and>
         mset (edge_rows (sources g) (destinations g) (weights g) (edge_types g))
           = {#(0, 1, Some (Finite 1), None), (0, 1, Some (Finite 2), None)#})"
proof -
  have gen: "(\<forall>a b p. Mapping.lookup (unique_edges g) (a, b) = Some p \<longleftrightarrow>
          p < length s \<and> p < length d \<and> s ! p = a \<and> d ! p = b \<and>
          (\<forall>j. p < j \<and> j < length s \<and> j < length d \<longrightarrow> \<not> (s ! j = a \<and> d ! j = b))) \<and>
       length (sources g) = length s \<and>
       mset (edge_rows (sources g) (destinations g) (weights g) (edge_types g))
         = mset (edge_rows s d w e)"
    if r: "new_directed srt s d nm nr nt ntm ntr e etm etr w vf = Inr g"
    for g s d w e nm nr nt ntm ntr etm etr vf
  proof (intro conjI allI)
    fix a b p
    have "Mapping.lookup (unique_edges g) (a, b) = Some p \<longleftrightarrow>
        p < length (zip s d) \<and> zip s d ! p = (a, b) \<and>
        (\<forall>j. p < j \<and> j < length (zip s d) \<longrightarrow> zip s d ! j \<noteq> (a, b))"
      unfolding new_directed_unique_edges[OF r] by (rule lookup_from_iter_enumerate)
    also have "\<dots> \<longleftrightarrow> p < length s \<and> p < length d \<and> s ! p = a \<and> d ! p = b \<and>
          (\<forall>j. p < j \<and> j < length s \<and> j < length d \<longrightarrow> \<not> (s ! j = a \<and> d ! j = b))"
      by auto
    finally show "Mapping.lookup (unique_edges g) (a, b) = Some p \<longleftrightarrow>
          p < length s \<and> p < length d \<and> s ! p = a \<and> d ! p = b \<and>
          (\<forall>j. p < j \<and> j < length s \<and> j < length d \<longrightarrow> \<not> (s ! j = a \<and> d ! j = b))" .
  next
    show "length (sources g) = length s"
      using r indices_length[OF c, of s] unfolding new_directed_Inr[OF c] by simp
  next
    show "mset (edge_rows (sources g) (destinations g) (weights g) (edge_types g))
         = mset (edge_rows s d w e)"
      by (rule edge_rows_of_result[OF c r])
  qed
  have v: "validate [0, 0] [1, 1] ab_mapping [''A'', ''B''] None None
       (Some [Finite 1, Finite 2]) = Inr ()"
    by (simp add: validate_def Mapping.size_def)
  have "\<exists>g. new_directed srt [0, 0] [1, 1] ab_mapping [''A'', ''B'']
            None None None None None None (Some [Finite 1, Finite 2]) (Some True) = Inr g"
    unfolding new_directed_Inr[OF c] using v by (simp add: long_enough_def)
  then obtain g where g: "new_directed srt [0, 0] [1, 1] ab_mapping [''A'', ''B'']
            None None None None None None (Some [Finite 1, Finite 2]) (Some True) = Inr g" ..
  have l: "Mapping.lookup (unique_edges g) (0, 1) = Some 1"
    unfolding new_directed_unique_edges[OF g]
    by (simp add: from_iter_def enumerate_eq_zip upt_rec Mapping.lookup_update)
  have m: "mset (edge_rows (sources g) (destinations g) (weights g) (edge_types g))
           = {#(0, 1, Some (Finite 1), None), (0, 1, Some (Finite 2), None)#}"
    unfolding edge_rows_of_result[OF c g] by (simp add: edge_rows_def upt_rec)
  from g l m gen show ?thesis by blast
qed

theorem dedup_index_last_occurrence_witness:
  "sort_unstable_by_key_contract (sort_key snd)
   \<and> (case new_directed (sort_key snd) [0, 1, 0] [1, 0, 1] ab_mapping [''A'', ''B'']
          None None None None None None (Some [Finite 1, Finite 2, Finite 3]) (Some True) of
        Inl _ \<Rightarrow> False
      | Inr g \<Rightarrow> Mapping.lookup (unique_edges g) (0, 1) = Some 2 \<and>
          Mapping.lookup (unique_edges g) (1, 0) = Some 1 \<and>
          length (sources g) = 3 \<and>
          mset (edge_rows (sources g) (destinations g) (weights g) (edge_types g))
            = {#(0, 1, Some (Finite 1), None), (1, 0, Some (Finite 2), None),
                (0, 1, Some (Finite 3), None)#})"
proof -
  obtain g where g: "new_directed (sort_key snd) [0, 1, 0] [1, 0, 1] ab_mapping
      [''A'', ''B''] None None None None None None (Some [Finite 1, Finite 2, Finite 3])
      (Some True) = Inr g"
    by (simp add: eval_simps)
  have t: "(\<forall>a b p. Mapping.lookup (unique_edges g) (a, b) = Some p \<longleftrightarrow>
          p < length [0::nat, 1, 0] \<and> p < length [1::nat, 0, 1] \<and>
          [0::nat, 1, 0] ! p = a \<and> [1::nat, 0, 1] ! p = b \<and>
          (\<forall>j. p < j \<and> j < length [0::nat, 1, 0] \<and> j < length [1::nat, 0, 1]
             \<longrightarrow> \<not> ([0::nat, 1, 0] ! j = a \<and> [1::nat, 0, 1] ! j = b))) \<and>
       length (sources g) = length [0::nat, 1, 0] \<and>
       mset (edge_rows (sources g) (destinations g) (weights g) (edge_types g))
         = mset (edge_rows [0, 1, 0] [1, 0, 1] (Some [Finite 1, Finite 2, Finite 3]) None)"
    using dedup_index_last_occurrence[OF sort_key_contract, of "[0, 1, 0]" "[1, 0, 1]"
        ab_mapping "[''A'', ''B'']" None None None None None None
        "Some [Finite 1, Finite 2, Finite 3]" "Some True"] g
    by blast
  have a: "Mapping.lookup (unique_edges g) (0, 1) = Some 2"
    using t by (simp add: less_Suc_eq nth_Cons')
  have b: "Mapping.lookup (unique_edges g) (1, 0) = Some 1"
    using t by (simp add: less_Suc_eq nth_Cons')
  have m: "mset (edge_rows (sources g) (destinations g) (weights g) (edge_types g))
            = {#(0, 1, Some (Finite 1), None), (1, 0, Some (Finite 2), None),
                (0, 1, Some (Finite 3), None)#}"
  proof -
    have "mset (edge_rows [0, 1, 0] [1, 0, 1] (Some [Finite 1, Finite 2, Finite 3]) None)
        = {#(0, 1, Some (Finite 1), None), (1, 0, Some (Finite 2), None),
            (0, 1, Some (Finite 3), None)#}"
      by (simp add: edge_rows_def upt_rec)
    with t show ?thesis by (simp only:)
  qed
  have n: "length (sources g) = 3" using t by simp
  show ?thesis
    unfolding g using a b m n sort_key_contract by simp
qed

text \<open>
  Claim C6, as amended. For every graph returned by \<open>new_directed\<close> and every pair
  \<open>(s, d)\<close> in its dedup index, the mapped value \<open>p\<close> is an edge position of the input
  order, an index into the edge arrays as they were passed, before sorting:
  \<open>sources[p] = s\<close> and \<open>destinations[p] = d\<close> hold of the input arrays. The value is
  within the bounds of the sorted arrays, and the edge \<open>(s, d)\<close> is at some position of
  them, which need not be \<open>p\<close>: for sources \<open>[2,0,1]\<close> and destinations \<open>[0,1,2]\<close> the
  pair \<open>(2,0)\<close> maps to \<open>0\<close>, while position \<open>0\<close> of the sorted arrays holds the edge
  \<open>(0,1)\<close>.
\<close>

theorem dedup_index_input_position:
  assumes c: "sort_unstable_by_key_contract srt"
    and r: "new_directed srt srcs dsts nmap nrev ntypes ntmap ntrev etypes etmap etrev wts vflag
              = Inr g"
    and l: "Mapping.lookup (unique_edges g) (s, d) = Some p"
  shows "p < length srcs \<and> srcs ! p = s \<and> dsts ! p = d
    \<and> p < length (sources g) \<and> p < length (destinations g)
    \<and> (\<exists>q<length (sources g). sources g ! q = s \<and> destinations g ! q = d)"
proof -
  let ?idx = "map fst (srt (List.enumerate 0 srcs))"
  have "p < length (zip srcs dsts) \<and> zip srcs dsts ! p = (s, d)"
    using l unfolding new_directed_unique_edges[OF r] lookup_from_iter_enumerate by blast
  then have p: "p < length srcs" "p < length dsts" "srcs ! p = s" "dsts ! p = d" by auto
  have f: "sources g = map (nth srcs) ?idx" "destinations g = map (nth dsts) ?idx"
    using r unfolding new_directed_Inr[OF c] by simp_all
  have len: "length ?idx = length srcs" by (rule indices_length[OF c])
  have "p \<in> set ?idx" using p(1) unfolding indices_set[OF c] by simp
  then obtain q where q: "q < length ?idx" "?idx ! q = p" by (auto simp: in_set_conv_nth)
  have "sources g ! q = s \<and> destinations g ! q = d"
    unfolding f using q p by simp
  moreover have "q < length (sources g)" unfolding f using q by simp
  moreover have "length (sources g) = length srcs" "length (destinations g) = length srcs"
    unfolding f using len by simp_all
  ultimately show ?thesis using p by auto
qed

theorem dedup_index_input_position_counterexample:
  "new_directed (sort_key snd) [2, 0, 1] [0, 1, 2] abc_mapping [''A'', ''B'', ''C'']
      None None None None None None (Some [Finite 1, Finite 2, Finite 3]) (Some True)
     = Inr \<lparr> nodes_mapping = abc_mapping,
             nodes_reverse_mapping = [''A'', ''B'', ''C''],
             unique_edges = from_iter [((2, 0), 0), ((0, 1), 1), ((1, 2), 2)],
             node_types = None,
             node_types_mapping = None,
             node_types_reverse_mapping = None,
             edge_types_mapping = None,
             edge_types_reverse_mapping = None,
             outbounds = [1, 2, 3],
             sources = [0, 1, 2],
             destinations = [1, 2, 0],
             weights = Some [Finite 2, Finite 3, Finite 1],
             edge_types = None \<rparr>
   \<and> Mapping.lookup (from_iter [((2::NodeT, 0::NodeT), 0::EdgeT), ((0, 1), 1), ((1, 2), 2)])
         (2, 0) = Some 0
   \<and> [0::NodeT, 1, 2] ! 0 \<noteq> 2"
  by (simp add: eval_simps Mapping.lookup_update' numeral_2_eq_2 numeral_3_eq_3)

theorem dedup_index_input_position_witness:
  "sort_unstable_by_key_contract (sort_key snd)
   \<and> (case new_directed (sort_key snd) [2, 0, 1] [0, 1, 2] abc_mapping [''A'', ''B'', ''C'']
          None None None None None None (Some [Finite 1, Finite 2, Finite 3]) (Some True) of
        Inl _ \<Rightarrow> False
      | Inr g \<Rightarrow> Mapping.lookup (unique_edges g) (2, 0) = Some 0 \<and>
          (0::nat) < length [2::nat, 0, 1] \<and> [2::nat, 0, 1] ! 0 = 2 \<and> [0::nat, 1, 2] ! 0 = 0 \<and>
          0 < length (sources g) \<and> sources g ! 2 = 2 \<and> destinations g ! 2 = 0)"
proof -
  obtain g where g: "new_directed (sort_key snd) [2, 0, 1] [0, 1, 2] abc_mapping
      [''A'', ''B'', ''C''] None None None None None None
      (Some [Finite 1, Finite 2, Finite 3]) (Some True) = Inr g"
    by (simp add: eval_simps)
  have l: "Mapping.lookup (unique_edges g) (2, 0) = Some 0"
    using g by (auto simp: eval_simps Mapping.lookup_update')
  note t = dedup_index_input_position[OF sort_key_contract g l]
  have ev: "sources g ! 2 = 2 \<and> destinations g ! 2 = 0"
    using g by (auto simp: eval_simps)
  show ?thesis
    unfolding g using t l ev sort_key_contract by simp
qed

subsection \<open>Symmetrization\<close>

lemma zip_as_map_upt:
  "length lm \<le> length v \<Longrightarrow> zip v lm = map (\<lambda>i. (v ! i, lm ! i)) [0..<length lm]"
  by (rule nth_equalityI) simp_all

lemma not_loops_nth:
  assumes "length lm \<le> length v"
  shows "not_loops v lm = map (nth v) (filter (\<lambda>i. \<not> lm ! i) [0..<length lm])"
  unfolding not_loops_def zip_as_map_upt[OF assms]
  by (simp add: filter_map comp_def)

lemma extended_array:
  assumes "length v = n" "length lm = n"
  shows "v @ not_loops v lm
     = map (\<lambda>(b, i). v ! i)
         (map (Pair False) [0..<n] @ map (Pair True) (filter (\<lambda>i. \<not> lm ! i) [0..<n]))"
proof -
  have "map (nth v) [0..<n] = v" using assms(1) map_nth[of v] by simp
  then show ?thesis
    using not_loops_nth[of lm v] assms by (simp add: comp_def)
qed

lemma extended_sources:
  assumes "length s = n" "length d = n" "length lm = n"
  shows "s @ not_loops d lm
     = map (\<lambda>(b, i). if b then d ! i else s ! i)
         (map (Pair False) [0..<n] @ map (Pair True) (filter (\<lambda>i. \<not> lm ! i) [0..<n]))"
proof -
  have "map (nth s) [0..<n] = s" using assms(1) map_nth[of s] by simp
  then show ?thesis
    using not_loops_nth[of lm d] assms by (simp add: comp_def)
qed

lemma extended_option:
  assumes "same_length n vo" "length lm = n"
  shows "map_option (\<lambda>v. v @ not_loops v lm) vo
     = map_option (\<lambda>v. map (\<lambda>(b, i). v ! i)
         (map (Pair False) [0..<n] @ map (Pair True) (filter (\<lambda>i. \<not> lm ! i) [0..<n]))) vo"
proof (cases vo)
  case None
  then show ?thesis by simp
next
  case (Some v)
  then have "length v = n" using assms(1) by (simp add: same_length_def)
  then show ?thesis using Some extended_array[OF _ assms(2), of v] by simp
qed

lemma edge_rows_symmetrized:
  assumes d: "length d = length s" and w: "same_length (length s) w"
    and e: "same_length (length s) e"
  shows "edge_rows (s @ not_loops d (map (\<lambda>(a, b). a = b) (zip s d)))
           (d @ not_loops s (map (\<lambda>(a, b). a = b) (zip s d)))
           (map_option (\<lambda>v. v @ not_loops v (map (\<lambda>(a, b). a = b) (zip s d))) w)
           (map_option (\<lambda>v. v @ not_loops v (map (\<lambda>(a, b). a = b) (zip s d))) e)
     = symmetrized (edge_rows s d w e)"
proof -
  let ?n = "length s"
  let ?lm = "map (\<lambda>(a, b). a = b) (zip s d)"
  let ?keep = "filter (\<lambda>i. \<not> ?lm ! i) [0..<?n]"
  let ?Q = "map (Pair False) [0..<?n] @ map (Pair True) ?keep"
  let ?row = "\<lambda>i. (s ! i, d ! i, map_option (\<lambda>v. v ! i) w, map_option (\<lambda>v. v ! i) e)"
  have l: "length ?lm = ?n" using d by simp
  have fs: "s @ not_loops d ?lm = map (\<lambda>(b, i). if b then d ! i else s ! i) ?Q"
    by (rule extended_sources[OF refl d l])
  have fd: "d @ not_loops s ?lm = map (\<lambda>(b, i). if b then s ! i else d ! i) ?Q"
    by (rule extended_sources[OF d refl l])
  have fw: "map_option (\<lambda>v. v @ not_loops v ?lm) w
     = map_option (\<lambda>v. map (\<lambda>(b, i). v ! i) ?Q) w"
    by (rule extended_option[OF w l])
  have fe: "map_option (\<lambda>v. v @ not_loops v ?lm) e
     = map_option (\<lambda>v. map (\<lambda>(b, i). v ! i) ?Q) e"
    by (rule extended_option[OF e l])
  have k: "?keep = filter (\<lambda>i. \<not> is_self_loop (?row i)) [0..<?n]"
    by (rule filter_cong) (simp_all add: d)
  have "edge_rows (s @ not_loops d ?lm) (d @ not_loops s ?lm)
          (map_option (\<lambda>v. v @ not_loops v ?lm) w) (map_option (\<lambda>v. v @ not_loops v ?lm) e)
      = map (\<lambda>q. ((\<lambda>(b, i). if b then d ! i else s ! i) q,
                  (\<lambda>(b, i). if b then s ! i else d ! i) q,
                  map_option (\<lambda>v. (\<lambda>(b, i). v ! i) q) w,
                  map_option (\<lambda>v. (\<lambda>(b, i). v ! i) q) e)) ?Q"
    unfolding fs fd fw fe
    by (rule edge_rows_of_maps[of _ ?Q _ "\<lambda>v (b, i). v ! i" w "\<lambda>v (b, i). v ! i" e])
  also have "\<dots> = map ?row [0..<?n] @ map (mirrored \<circ> ?row) ?keep"
    by (simp add: comp_def)
  also have "\<dots> = map ?row [0..<?n]
       @ map mirrored (filter (\<lambda>r. \<not> is_self_loop r) (map ?row [0..<?n]))"
    unfolding k by (simp add: filter_map comp_def)
  finally show ?thesis unfolding edge_rows_def symmetrized_def .
qed

text \<open>
  Claim C3, as amended. For every input on which \<open>new_undirected\<close> returns a graph and
  whose arrays are co-indexed (the destinations and, when present, the weights and the
  edge types have as many entries as the sources), the multiset of the edges of the graph
  is the multiset of the input edges plus one mirrored edge \<open>(d, s)\<close>, with the weight and
  the edge type of its original, for each input edge \<open>(s, d)\<close> with \<open>s \<noteq> d\<close>; self-loops
  occur once. For the input edges \<open>(0,1), (1,2), (2,2)\<close> the result has the edges
  \<open>(0,1), (1,0), (1,2), (2,1), (2,2)\<close>.
\<close>

theorem undirected_edge_multiset:
  assumes c: "sort_unstable_by_key_contract srt"
  shows
   "(\<forall>h. length dsts = length srcs \<and> same_length (length srcs) wts \<and>
         same_length (length srcs) etypes \<and>
         new_undirected srt srcs dsts nmap nrev ntypes ntmap ntrev etypes etmap etrev wts vflag
           = Inr h \<longrightarrow>
       mset (edge_rows (sources h) (destinations h) (weights h) (edge_types h))
         = mset (symmetrized (edge_rows srcs dsts wts etypes)))
    \<and>
    (\<exists>h. new_undirected srt [0, 1, 2] [1, 2, 2] abc_mapping [''A'', ''B'', ''C'']
            None None None None None None None (Some True) = Inr h \<and>
         mset (edge_rows (sources h) (destinations h) (weights h) (edge_types h))
           = {#(0, 1, None, None), (1, 0, None, None), (1, 2, None, None),
               (2, 1, None, None), (2, 2, None, None)#})"
proof -
  have gen: "mset (edge_rows (sources h) (destinations h) (weights h) (edge_types h))
         = mset (symmetrized (edge_rows s d w e))"
    if "length d = length s" "same_length (length s) w" "same_length (length s) e"
      "new_undirected srt s d nm nr nt ntm ntr e etm etr w vf = Inr h"
    for h s d w e nm nr nt ntm ntr etm etr vf
    using edge_rows_of_result[OF c new_undirected_as_directed[OF that(4)]]
    unfolding edge_rows_symmetrized[OF that(1,2,3)] by simp
  have v: "validate [0, 1, 2] [1, 2, 2] abc_mapping [''A'', ''B'', ''C''] None None None = Inr ()"
    by (simp add: validate_def Mapping.size_def)
  have "\<exists>h. new_undirected srt [0, 1, 2] [1, 2, 2] abc_mapping [''A'', ''B'', ''C'']
            None None None None None None None (Some True) = Inr h"
    unfolding new_undirected_Inr_iff[OF c] using v by (simp add: long_enough_def)
  then obtain h where h: "new_undirected srt [0, 1, 2] [1, 2, 2] abc_mapping
       [''A'', ''B'', ''C''] None None None None None None None (Some True) = Inr h" ..
  have "mset (edge_rows (sources h) (destinations h) (weights h) (edge_types h))
           = {#(0, 1, None, None), (1, 0, None, None), (1, 2, None, None),
               (2, 1, None, None), (2, 2, None, None)#}"
    unfolding gen[OF _ _ _ h, simplified same_length_def, simplified]
    by (simp add: edge_rows_def symmetrized_def upt_rec)
  with h gen show ?thesis by blast
qed

theorem undirected_edge_multiset_counterexample:
  "new_undirected (sort_key snd) [0, 0] [0, 1] ab_mapping [''A'', ''B'']
      None None None None None None (Some [Finite 1, Finite 2, Finite 3]) (Some False)
     = Inr \<lparr> nodes_mapping = ab_mapping,
             nodes_reverse_mapping = [''A'', ''B''],
             unique_edges = from_iter [((0, 0), 0), ((0, 1), 1), ((1, 0), 2)],
             node_types = None,
             node_types_mapping = None,
             node_types_reverse_mapping = None,
             edge_types_mapping = None,
             edge_types_reverse_mapping = None,
             outbounds = [2, 3],
             sources = [0, 0, 1],
             destinations = [0, 1, 0],
             weights = Some [Finite 1, Finite 2, Finite 3],
             edge_types = None \<rparr>
   \<and> mset (edge_rows [0, 0, 1] [0, 1, 0] (Some [Finite 1, Finite 2, Finite 3]) None)
       = {#(0, 0, Some (Finite 1), None), (0, 1, Some (Finite 2), None),
           (1, 0, Some (Finite 3), None)#}
   \<and> mset (symmetrized (edge_rows [0, 0] [0, 1] (Some [Finite 1, Finite 2, Finite 3]) None))
       = {#(0, 0, Some (Finite 1), None), (0, 1, Some (Finite 2), None),
           (1, 0, Some (Finite 2), None)#}
   \<and> mset (edge_rows [0, 0, 1] [0, 1, 0] (Some [Finite 1, Finite 2, Finite 3]) None)
       \<noteq> mset (symmetrized (edge_rows [0, 0] [0, 1] (Some [Finite 1, Finite 2, Finite 3]) None))"
  by (simp add: eval_simps edge_rows_def symmetrized_def numeral_2_eq_2 numeral_3_eq_3)

theorem undirected_edge_multiset_witness:
  "sort_unstable_by_key_contract (sort_key snd)
   \<and> length [1::nat, 2, 2] = length [0::nat, 1, 2]
   \<and> same_length (length [0::nat, 1, 2]) (Some [Finite 1, Finite 2, Finite 3])
   \<and> same_length (length [0::nat, 1, 2]) (Some [5::nat, 6, 7])
   \<and> (case new_undirected (sort_key snd) [0, 1, 2] [1, 2, 2] abc_mapping [''A'', ''B'', ''C'']
          None None None (Some [5, 6, 7]) None None
          (Some [Finite 1, Finite 2, Finite 3]) (Some True) of
        Inl _ \<Rightarrow> False
      | Inr h \<Rightarrow>
          mset (edge_rows (sources h) (destinations h) (weights h) (edge_types h))
            = {#(0, 1, Some (Finite 1), Some 5), (1, 0, Some (Finite 1), Some 5),
                (1, 2, Some (Finite 2), Some 6), (2, 1, Some (Finite 2), Some 6),
                (2, 2, Some (Finite 3), Some 7)#})"
proof -
  obtain h where h: "new_undirected (sort_key snd) [0, 1, 2] [1, 2, 2] abc_mapping
      [''A'', ''B'', ''C''] None None None (Some [5, 6, 7]) None None
      (Some [Finite 1, Finite 2, Finite 3]) (Some True) = Inr h"
    by (simp add: eval_simps)
  have l: "length [1::nat, 2, 2] = length [0::nat, 1, 2]"
      "same_length (length [0::nat, 1, 2]) (Some [Finite 1, Finite 2, Finite 3])"
      "same_length (length [0::nat, 1, 2]) (Some [5::nat, 6, 7])"
    by (simp_all add: same_length_def)
  have "mset (edge_rows (sources h) (destinations h) (weights h) (edge_types h))
      = mset (symmetrized
          (edge_rows [0, 1, 2] [1, 2, 2] (Some [Finite 1, Finite 2, Finite 3]) (Some [5, 6, 7])))"
    using undirected_edge_multiset[OF sort_key_contract, of "[1, 2, 2]" "[0, 1, 2]"
        "Some [Finite 1, Finite 2, Finite 3]" "Some [5, 6, 7]" abc_mapping
        "[''A'', ''B'', ''C'']" None None None None None "Some True"] l h
    by blast
  then have m: "mset (edge_rows (sources h) (destinations h) (weights h) (edge_types h))
            = {#(0, 1, Some (Finite 1), Some 5), (1, 0, Some (Finite 1), Some 5),
                (1, 2, Some (Finite 2), Some 6), (2, 1, Some (Finite 2), Some 6),
                (2, 2, Some (Finite 3), Some 7)#}"
    by (simp add: edge_rows_def symmetrized_def upt_rec)
  show ?thesis
    unfolding h using m l sort_key_contract by simp
qed

end
